theory Spec2Isabelle
  imports Main
begin

section \<open>Python values and errors\<close>

text \<open>
  Exceptions of the Python code are values: a function that can raise returns
  \<open>py_error + 'a\<close>, with \<open>Inl\<close> for the exception that leaves it.
  Strings are byte lists (the UTF-8 encoding of the Python \<open>str\<close>); every
  separator the code splits on is ASCII, so splitting bytes and splitting
  code points agree.
\<close>

datatype py_error =
    IndexError
  | KeyError string
  | TypeError
  | AttributeError
  | DecodeError
  | JSONDecodeError
  | RequestException

subsection \<open>String operations of the standard library\<close>

text \<open>\<open>s.split(sep)\<close> for a one-character separator: never the empty list.\<close>

fun split_on :: "char \<Rightarrow> string \<Rightarrow> string list" where
  "split_on sep [] = [[]]"
| "split_on sep (c # cs) =
     (if c = sep then [] # split_on sep cs
      else (case split_on sep cs of
              [] \<Rightarrow> [[c]]
            | x # xs \<Rightarrow> (c # x) # xs))"

text \<open>\<open>s.split(sep, 1)\<close>: the part before the first separator and, when there
  is a separator, the rest (the list has one or two elements).\<close>

definition split1 :: "char \<Rightarrow> string \<Rightarrow> string \<times> string option" where
  "split1 sep s =
     (takeWhile (\<lambda>c. c \<noteq> sep) s,
      case dropWhile (\<lambda>c. c \<noteq> sep) s of
        [] \<Rightarrow> None
      | _ # rest \<Rightarrow> Some rest)"

definition startswith :: "string \<Rightarrow> string \<Rightarrow> bool" where
  "startswith s p = (take (length p) s = p)"

definition endswith :: "string \<Rightarrow> string \<Rightarrow> bool" where
  "endswith s p = (length p \<le> length s \<and> drop (length s - length p) s = p)"

text \<open>\<open>s.replace(old, new)\<close> for a non-empty \<open>old\<close> (every call site passes a
  non-empty literal): left to right, without overlap.\<close>

function replace_str :: "string \<Rightarrow> string \<Rightarrow> string \<Rightarrow> string" where
  "replace_str old new [] = []"
| "replace_str old new (c # cs) =
     (if old \<noteq> [] \<and> startswith (c # cs) old
      then new @ replace_str old new (drop (length old) (c # cs))
      else c # replace_str old new cs)"
  by pat_completeness auto
termination
  by (relation "measure (\<lambda>(old, new, s). length s)") auto

text \<open>\<open>sub in s\<close> on strings.\<close>

fun contains :: "string \<Rightarrow> string \<Rightarrow> bool" where
  "contains [] sub = (sub = [])"
| "contains (c # cs) sub = (startswith (c # cs) sub \<or> contains cs sub)"

subsection \<open>\<open>urllib.parse\<close>\<close>

definition always_safe :: "char \<Rightarrow> bool" where
  "always_safe c =
     (c \<in> set (''ABCDEFGHIJKLMNOPQRSTUVWXYZ'' @ ''abcdefghijklmnopqrstuvwxyz''
              @ ''0123456789'' @ ''_.-~''))"

definition hexdigit :: "nat \<Rightarrow> char" where
  "hexdigit n = ''0123456789ABCDEF'' ! (n mod 16)"

definition pct :: "char \<Rightarrow> string" where
  "pct c = [CHR ''%'', hexdigit ((of_char c :: nat) div 16), hexdigit ((of_char c :: nat) mod 16)]"

text \<open>\<open>quote(s, safe)\<close>: every byte outside the always-safe set and \<open>safe\<close>
  becomes \<open>%XX\<close>.\<close>

definition quote :: "string \<Rightarrow> string \<Rightarrow> string" where
  "quote safe s = concat (map (\<lambda>c. if always_safe c \<or> c \<in> set safe then [c] else pct c) s)"

definition quote_plus :: "string \<Rightarrow> string" where
  "quote_plus s =
     (if CHR '' '' \<in> set s then replace_str '' '' ''+'' (quote '' '' s)
      else quote [] s)"

text \<open>\<open>urlparse(url).query\<close>: the fragment is cut at the first \<open>#\<close>, then the
  query is what follows the first \<open>?\<close> of the rest.\<close>

definition urlparse_query :: "string \<Rightarrow> string" where
  "urlparse_query url =
     (case dropWhile (\<lambda>c. c \<noteq> CHR ''?'') (takeWhile (\<lambda>c. c \<noteq> CHR ''#'') url) of
        [] \<Rightarrow> []
      | _ # q \<Rightarrow> q)"

section \<open>The canonical query string (\<open>auth.py\<close>, \<open>AWSAuth.__call__\<close>)\<close>

text \<open>\<open>quote_plus(value).replace("+", "%20")\<close>, also \<open>ParaClient.urlenc\<close>.\<close>

definition urlenc :: "string \<Rightarrow> string" where
  "urlenc s = replace_str ''+'' ''%20'' (quote_plus s)"

text \<open>The loop's variables: the dict \<open>query\<close> in insertion order, the string
  \<open>querystring\<close>, and the flag \<open>multi_valued_params\<close>.\<close>

record canon =
  query :: "(string \<times> string) list"
  querystring :: string
  multi_valued_params :: bool

definition canon_init :: canon where
  "canon_init = \<lparr>query = [], querystring = [], multi_valued_params = False\<rparr>"

text \<open>One iteration of \<open>for param in paramz\<close>. \<open>key_val[1]\<close> raises IndexError
  when the parameter has no \<open>=\<close>.\<close>

definition canon_step :: "string \<Rightarrow> canon \<Rightarrow> py_error + canon" where
  "canon_step param st =
     (if param = [] then Inr st
      else (case split1 CHR ''='' param of
              (key, None) \<Rightarrow> Inl IndexError
            | (key, Some val) \<Rightarrow>
                if \<not> multi_valued_params st \<and> key \<in> fst ` set (query st)
                then Inr (st\<lparr>multi_valued_params := True\<rparr>)
                else if key \<noteq> [] \<and> key \<notin> fst ` set (query st)
                then Inr (st\<lparr>query := query st @ [(key, val)],
                              querystring :=
                                (if querystring st \<noteq> [] then querystring st @ ''&''
                                 else querystring st) @ key @ ''='' @ urlenc val\<rparr>)
                else Inr st))"

fun canon_loop :: "string list \<Rightarrow> canon \<Rightarrow> py_error + canon" where
  "canon_loop [] st = Inr st"
| "canon_loop (p # ps) st =
     (case canon_step p st of
        Inl e \<Rightarrow> Inl e
      | Inr st' \<Rightarrow> canon_loop ps st')"

text \<open>The first half of \<open>__call__\<close>, on the query of the request's URL.\<close>

definition canonicalize :: "string \<Rightarrow> py_error + canon" where
  "canonicalize q = canon_loop (split_on CHR ''&'' q) canon_init"

text \<open>The canonical string alone.\<close>

definition canonical_string :: "string \<Rightarrow> py_error + string" where
  "canonical_string q =
     (case canonicalize q of Inl e \<Rightarrow> Inl e | Inr st \<Rightarrow> Inr (querystring st))"

section \<open>Signing a prepared request (\<open>auth.py\<close>, \<open>AWSAuth.__call__\<close>)\<close>

text \<open>The prepared request the \<open>requests\<close> library hands to an auth hook.\<close>

record prepared_request =
  r_method :: string
  r_url :: string
  r_headers :: "string \<rightharpoonup> string"
  r_body :: "string option"

text \<open>
  The wrapped signer \<open>self.auth\<close> (an \<open>AWSRequestsAuth\<close>, external): it computes
  signature headers from the request it is given and updates that request's
  headers with them. The computation is a parameter.
\<close>

type_synonym signer = "prepared_request \<Rightarrow> (string \<rightharpoonup> string)"

definition auth_call :: "signer \<Rightarrow> prepared_request \<Rightarrow> prepared_request" where
  "auth_call sign r = r\<lparr>r_headers := r_headers r ++ sign r\<rparr>"

text \<open>
  \<open>AWSAuth.__call__(r)\<close>. With a repeated key the signer sees a copy whose
  URL is rebuilt from the canonical string, and the copy's headers are merged
  into \<open>r\<close>; otherwise \<open>r\<close> itself gets \<open>+\<close> rewritten and is signed.
\<close>

definition AWSAuth_call :: "signer \<Rightarrow> prepared_request \<Rightarrow> py_error + prepared_request" where
  "AWSAuth_call sign r =
     (case canonicalize (urlparse_query (r_url r)) of
        Inl e \<Rightarrow> Inl e
      | Inr st \<Rightarrow>
          if multi_valued_params st then
            (case split_on CHR ''?'' (r_url r) of
               [] \<Rightarrow> Inl IndexError
             | base # _ \<Rightarrow>
                 let newr = auth_call sign (r\<lparr>r_url := base @ ''?'' @ querystring st\<rparr>)
                 in Inr (r\<lparr>r_headers := r_headers r ++ r_headers newr\<rparr>))
          else Inr (auth_call sign (r\<lparr>r_url := replace_str ''+'' ''%20'' (r_url r)\<rparr>)))"

section \<open>JSON values and HTTP responses\<close>

text \<open>
  What \<open>json.loads\<close> and \<open>Response.json()\<close> return. \<open>JNull\<close> is Python's
  \<open>None\<close>. Numbers with a fraction or an exponent (Python floats) are not
  modelled. A dict is its items in order, keys distinct.
\<close>

datatype json =
    JNull
  | JBool bool
  | JInt int
  | JStr string
  | JArr "json list"
  | JObj "(string \<times> json) list"

text \<open>Truth value testing.\<close>

fun truthy :: "json \<Rightarrow> bool" where
  "truthy JNull = False"
| "truthy (JBool b) = b"
| "truthy (JInt n) = (n \<noteq> 0)"
| "truthy (JStr s) = (s \<noteq> [])"
| "truthy (JArr xs) = (xs \<noteq> [])"
| "truthy (JObj kvs) = (kvs \<noteq> [])"

text \<open>\<open>x[key]\<close> with a string key: only a dict accepts it.\<close>

fun subscript :: "json \<Rightarrow> string \<Rightarrow> py_error + json" where
  "subscript (JObj kvs) k =
     (case map_of kvs k of None \<Rightarrow> Inl (KeyError k) | Some v \<Rightarrow> Inr v)"
| "subscript _ k = Inl TypeError"

text \<open>The integer a value is when compared: \<open>bool\<close> is a subclass of \<open>int\<close>.\<close>

fun num_of :: "json \<Rightarrow> int option" where
  "num_of (JInt n) = Some n"
| "num_of (JBool b) = Some (if b then 1 else 0)"
| "num_of _ = None"

text \<open>
  \<open>a < b\<close>. Each comparison of \<open>refreshToken\<close> has an \<open>int\<close> on one side
  when it is evaluated, so only numbers compare; any other operand raises
  TypeError.
\<close>

definition py_less :: "json \<Rightarrow> json \<Rightarrow> py_error + bool" where
  "py_less a b =
     (case (num_of a, num_of b) of
        (Some x, Some y) \<Rightarrow> Inr (x < y)
      | _ \<Rightarrow> Inl TypeError)"

text \<open>\<open>"exp" in decoded\<close>: key of a dict, substring of a string, element of a
  list; any other value is not iterable.\<close>

fun py_in :: "string \<Rightarrow> json \<Rightarrow> py_error + bool" where
  "py_in k (JObj kvs) = Inr (k \<in> fst ` set kvs)"
| "py_in k (JStr s) = Inr (contains s k)"
| "py_in k (JArr xs) = Inr (JStr k \<in> set xs)"
| "py_in k _ = Inl TypeError"

text \<open>\<open>decoded.get(key)\<close>: only a dict has the method.\<close>

fun py_get :: "json \<Rightarrow> string \<Rightarrow> py_error + json" where
  "py_get (JObj kvs) k = Inr (case map_of kvs k of None \<Rightarrow> JNull | Some v \<Rightarrow> v)"
| "py_get _ k = Inl AttributeError"

text \<open>A response of the transport. \<open>json_body\<close> is what \<open>res.json()\<close> returns,
  \<open>None\<close> when the body is not JSON and the call raises.\<close>

record response =
  status_code :: int
  json_body :: "json option"
  text_body :: string
  reason :: string

text \<open>\<open>if res:\<close> on a response is \<open>res.ok\<close>: false for 4xx and 5xx.\<close>

definition res_ok :: "response \<Rightarrow> bool" where
  "res_ok res = (\<not> (400 \<le> status_code res \<and> status_code res < 600))"

text \<open>
  \<open>ParaClient.getEntity(res)\<close> with \<open>returnRawJSON=True\<close>, the mode the token
  code uses. The second argument is the error log, returned extended.
\<close>

definition getEntity :: "response option \<Rightarrow> string list \<Rightarrow> py_error + (json \<times> string list)" where
  "getEntity res log =
     (case res of
        None \<Rightarrow> Inr (JNull, log)
      | Some r \<Rightarrow>
          if \<not> res_ok r then Inr (JNull, log)
          else if status_code r = 200 \<or> status_code r = 201 \<or> status_code r = 304 then
            (case json_body r of
               None \<Rightarrow> Inr (JStr (text_body r), log)
             | Some body \<Rightarrow> Inr (if truthy body then body else JObj [], log))
          else
            (case json_body r of
               None \<Rightarrow> Inl JSONDecodeError
             | Some err \<Rightarrow>
                 if \<not> truthy err then Inl TypeError
                 else (case subscript err ''code'' of
                         Inl e \<Rightarrow> Inl e
                       | Inr c \<Rightarrow>
                           if \<not> truthy c then Inl TypeError
                           else (case subscript err ''message'' of
                                   Inl e \<Rightarrow> Inl e
                                 | Inr m \<Rightarrow>
                                     (case (if truthy m then m else JStr ''error'', c) of
                                        (JStr ms, JStr cs) \<Rightarrow>
                                          Inr (JNull, log @ [ms @ '' - '' @ cs])
                                      | _ \<Rightarrow> Inl TypeError)))))"

section \<open>The client (\<open>paraclient.py\<close>)\<close>

text \<open>
  One call of \<open>requests.request\<close>: its arguments. \<open>c_auth\<close> is the \<open>auth\<close>
  argument: the access key, secret key and host of the \<open>AWSRequestsAuth\<close>
  wrapped in \<open>AWSAuth\<close>, or \<open>None\<close> when the call passes no \<open>auth\<close>. The URL
  passed is \<open>c_endpointURL @ c_reqPath\<close>.
\<close>

record call =
  c_method :: string
  c_endpointURL :: string
  c_reqPath :: string
  c_params :: "(string \<times> string) list"
  c_headers :: "string \<rightharpoonup> string"
  c_data :: "string option"
  c_auth :: "(string \<times> string \<times> string) option"

text \<open>
  The client object and what it has done. Each token attribute is \<open>None\<close>
  when the instance has no such attribute (a read then finds the class
  attribute, \<open>None\<close>) and \<open>Some v\<close> when the instance holds \<open>v\<close>. \<open>calls\<close> are
  the calls of \<open>requests.request\<close> so far, \<open>errlog\<close> the messages given to
  \<open>logging.error\<close>.
\<close>

record client =
  endpoint :: "string option"
  accessKey :: "string option"
  secretKey :: "string option"
  path :: "string option"
  tokenKey :: "json option"
  tokenKeyExpires :: "json option"
  tokenKeyNextRefresh :: "json option"
  calls :: "call list"
  errlog :: "string list"

text \<open>A method's outcome: the value or the exception, and the client as the
  method leaves it (mutations made before an exception stay).\<close>

type_synonym 'a result = "(py_error + 'a) \<times> client"

text \<open>
  The collaborators outside the repository: how \<open>requests\<close> builds the URL
  of the prepared request from the URL and the parameters (\<open>None\<close>: it raises
  a RequestException), what headers the \<open>AWSRequestsAuth\<close> of given keys and
  host computes, what the network answers to a prepared request given the
  earlier calls (\<open>None\<close>: a RequestException), and what
  \<open>json.loads(base64.b64decode(seg).decode("utf-8"))\<close> yields (\<open>None\<close>: one of
  the three steps raises).
\<close>

record env =
  prepare_url :: "string \<Rightarrow> (string \<times> string) list \<Rightarrow> string option"
  aws_sign :: "string \<times> string \<times> string \<Rightarrow> signer"
  send :: "call list \<Rightarrow> prepared_request \<Rightarrow> response option"
  decode_payload :: "string \<Rightarrow> json option"

definition DEFAULT_ENDPOINT :: string where
  "DEFAULT_ENDPOINT = ''https://paraio.com''"

definition JWT_PATH :: string where
  "JWT_PATH = ''/jwt_auth''"

definition str_truthy :: "string option \<Rightarrow> bool" where
  "str_truthy x = (case x of None \<Rightarrow> False | Some s \<Rightarrow> s \<noteq> [])"

text \<open>Reading a token attribute: the instance's value, or the class
  attribute \<open>None\<close>.\<close>

definition read_attr :: "json option \<Rightarrow> json" where
  "read_attr a = (case a of None \<Rightarrow> JNull | Some v \<Rightarrow> v)"

definition getEndpoint :: "client \<Rightarrow> string" where
  "getEndpoint s =
     (case endpoint s of
        None \<Rightarrow> DEFAULT_ENDPOINT
      | Some e \<Rightarrow> if e = [] then DEFAULT_ENDPOINT else e)"

text \<open>\<open>getApiPath\<close> appends the missing \<open>/\<close> to the stored path.\<close>

definition getApiPath :: "client \<Rightarrow> string \<times> client" where
  "getApiPath s =
     (case path s of
        None \<Rightarrow> (DEFAULT_ENDPOINT, s)
      | Some p \<Rightarrow>
          if p = [] then (DEFAULT_ENDPOINT, s)
          else if \<not> endswith p ''/'' then (p @ ''/'', s\<lparr>path := Some (p @ ''/'')\<rparr>)
          else (p, s))"

definition getFullPath :: "client \<Rightarrow> string \<Rightarrow> string \<times> client" where
  "getFullPath s resourcepath =
     (if resourcepath \<noteq> [] \<and> startswith resourcepath JWT_PATH then (resourcepath, s)
      else let rp = (if resourcepath = [] then []
                     else if startswith resourcepath ''/'' then drop 1 resourcepath
                     else resourcepath);
               (p, s') = getApiPath s
           in (p @ rp, s'))"

text \<open>\<open>clearAccessToken\<close> and \<open>signOut\<close>: three \<open>del\<close> statements, each raising
  AttributeError when the instance does not hold the attribute.\<close>

definition clearAccessToken :: "client \<Rightarrow> unit result" where
  "clearAccessToken s =
     (case tokenKey s of
        None \<Rightarrow> (Inl AttributeError, s)
      | Some _ \<Rightarrow>
          (case tokenKeyExpires s of
             None \<Rightarrow> (Inl AttributeError, s\<lparr>tokenKey := None\<rparr>)
           | Some _ \<Rightarrow>
               (case tokenKeyNextRefresh s of
                  None \<Rightarrow> (Inl AttributeError, s\<lparr>tokenKey := None, tokenKeyExpires := None\<rparr>)
                | Some _ \<Rightarrow>
                    (Inr (), s\<lparr>tokenKey := None, tokenKeyExpires := None,
                               tokenKeyNextRefresh := None\<rparr>))))"

definition signOut :: "client \<Rightarrow> unit result" where
  "signOut s = clearAccessToken s"

text \<open>The \<open>else\<close> branch of \<open>setAccessToken\<close>: two \<open>del\<close> statements, then the
  assignment of the token.\<close>

definition unset_expiry :: "string \<Rightarrow> client \<Rightarrow> unit result" where
  "unset_expiry token s =
     (case tokenKeyExpires s of
        None \<Rightarrow> (Inl AttributeError, s)
      | Some _ \<Rightarrow>
          (case tokenKeyNextRefresh s of
             None \<Rightarrow> (Inl AttributeError, s\<lparr>tokenKeyExpires := None\<rparr>)
           | Some _ \<Rightarrow>
               (Inr (), s\<lparr>tokenKeyExpires := None, tokenKeyNextRefresh := None,
                          tokenKey := Some (JStr token)\<rparr>)))"

text \<open>\<open>setAccessToken(token)\<close>; \<open>None\<close> is Python's \<open>None\<close>. \<open>parts[1]\<close> raises
  IndexError when the token has no \<open>.\<close>; a payload that does not decode raises.\<close>

definition setAccessToken :: "env \<Rightarrow> string option \<Rightarrow> client \<Rightarrow> unit result" where
  "setAccessToken env token s =
     (case token of
        None \<Rightarrow> (Inr (), s\<lparr>tokenKey := Some JNull\<rparr>)
      | Some t \<Rightarrow>
          if t = [] then (Inr (), s\<lparr>tokenKey := Some (JStr t)\<rparr>)
          else (case split_on CHR ''.'' t of
                  _ # seg # _ \<Rightarrow>
                    (case decode_payload env (seg @ ''=='') of
                       None \<Rightarrow> (Inl DecodeError, s)
                     | Some decoded \<Rightarrow>
                         if \<not> truthy decoded then unset_expiry t s
                         else (case py_in ''exp'' decoded of
                                 Inl e \<Rightarrow> (Inl e, s)
                               | Inr False \<Rightarrow> unset_expiry t s
                               | Inr True \<Rightarrow>
                                   (case py_get decoded ''exp'' of
                                      Inl e \<Rightarrow> (Inl e, s)
                                    | Inr ex \<Rightarrow>
                                        (case py_get decoded ''refresh'' of
                                           Inl e \<Rightarrow> (Inl e, s\<lparr>tokenKeyExpires := Some ex\<rparr>)
                                         | Inr rf \<Rightarrow>
                                             (Inr (), s\<lparr>tokenKeyExpires := Some ex,
                                                        tokenKeyNextRefresh := Some rf,
                                                        tokenKey := Some (JStr t)\<rparr>)))))
                | _ \<Rightarrow> (Inl IndexError, s)))"

text \<open>
  \<open>requests.request(...)\<close>: the URL is prepared, the auth hook (when given)
  runs on the prepared request, and the result goes to the network. An
  exception of the hook is not a RequestException and leaves the call.
\<close>

definition requests_request :: "env \<Rightarrow> call list \<Rightarrow> call \<Rightarrow> py_error + response" where
  "requests_request env history c =
     (case prepare_url env (c_endpointURL c @ c_reqPath c) (c_params c) of
        None \<Rightarrow> Inl RequestException
      | Some u \<Rightarrow>
          (case (case c_auth c of
                   None \<Rightarrow> Inr \<lparr>r_method = c_method c, r_url = u,
                                r_headers = c_headers c, r_body = c_data c\<rparr>
                 | Some a \<Rightarrow>
                     AWSAuth_call (aws_sign env a)
                       \<lparr>r_method = c_method c, r_url = u,
                        r_headers = c_headers c, r_body = c_data c\<rparr>) of
             Inl e \<Rightarrow> Inl e
           | Inr r \<Rightarrow>
               (case send env history r of
                  None \<Rightarrow> Inl RequestException
                | Some res \<Rightarrow> Inr res)))"

text \<open>The \<open>try\<close> block of \<open>invokeSignedRequest\<close>: the call is made, and a
  RequestException is logged and becomes the response \<open>None\<close>.\<close>

definition do_request :: "env \<Rightarrow> client \<Rightarrow> call \<Rightarrow> response option result" where
  "do_request env s c =
     (case requests_request env (calls s) c of
        Inl RequestException \<Rightarrow>
          (Inr None,
           s\<lparr>calls := calls s @ [c],
             errlog := errlog s @ [''Request '' @ c_method c @ '' '' @ c_reqPath c @ '' failed!'']\<rparr>)
      | Inl e \<Rightarrow> (Inl e, s\<lparr>calls := calls s @ [c]\<rparr>)
      | Inr res \<Rightarrow> (Inr (Some res), s\<lparr>calls := calls s @ [c]\<rparr>))"

text \<open>The two conditions of \<open>refreshToken\<close>, evaluated left to right as
  \<open>and\<close>/\<open>or\<close> do; the result is the truth value of the expression.\<close>

definition notexpired :: "client \<Rightarrow> int \<Rightarrow> py_error + bool" where
  "notexpired s now =
     (if \<not> truthy (read_attr (tokenKeyExpires s)) then Inr False
      else py_less (JInt now) (read_attr (tokenKeyExpires s)))"

definition canrefresh :: "client \<Rightarrow> int \<Rightarrow> py_error + bool" where
  "canrefresh s now =
     (if \<not> truthy (read_attr (tokenKeyNextRefresh s)) then Inr False
      else (case py_less (read_attr (tokenKeyNextRefresh s)) (JInt now) of
              Inl e \<Rightarrow> Inl e
            | Inr True \<Rightarrow> Inr True
            | Inr False \<Rightarrow>
                py_less (read_attr (tokenKeyExpires s)) (read_attr (tokenKeyNextRefresh s))))"

section \<open>The dispatcher and the token refresh\<close>

text \<open>
  \<open>invokeSignedRequest\<close>, \<open>refreshToken\<close> and \<open>invokeGet\<close> call one another:
  the dispatcher refreshes the token unless the call is \<open>GET /jwt_auth\<close>, and
  \<open>refreshToken\<close> sends exactly that call through \<open>invokeGet\<close>. \<open>now\<close> is
  the clock reading \<open>int(round(time.time() * 1000))\<close> of the one
  \<open>refreshToken\<close> a dispatch can run.

  In \<open>refreshToken\<close> the test \<open>result and result["user"] and result["jwt"]\<close>
  subscripts the entity, which raises on a dict without the key and on
  anything that is not a dict. After a refresh \<open>"Bearer " + self.__tokenKey\<close>
  raises TypeError unless the token is a string.
\<close>

function invokeSignedRequest ::
    "env \<Rightarrow> int \<Rightarrow> client \<Rightarrow> string \<Rightarrow> string \<Rightarrow> string \<Rightarrow> (string \<rightharpoonup> string)
      \<Rightarrow> (string \<times> string) list \<Rightarrow> string option \<Rightarrow> response option result"
  and refreshToken :: "env \<Rightarrow> int \<Rightarrow> client \<Rightarrow> bool result"
  and invokeGet :: "env \<Rightarrow> int \<Rightarrow> client \<Rightarrow> string \<Rightarrow> (string \<times> string) list \<Rightarrow> response option result"
where
  "invokeSignedRequest env now s httpMethod endpointURL reqPath headers params jsonEntity =
     (if \<not> str_truthy (accessKey s)
      then (Inr None,
            s\<lparr>errlog := errlog s @ [''Blank access key: '' @ httpMethod @ '' '' @ reqPath]\<rparr>)
      else
        let do_sign0 = (\<not> truthy (read_attr (tokenKey s)));
            anon = (\<not> str_truthy (secretKey s) \<and> \<not> truthy (read_attr (tokenKey s)));
            headers1 = (if anon
                        then headers(''Authorization'' \<mapsto> ''Anonymous '' @ the (accessKey s))
                        else headers);
            do_sign = (if anon then False else do_sign0)
        in
          if truthy (read_attr (tokenKey s)) then
            (case (if \<not> (httpMethod = ''GET'' \<and> reqPath = JWT_PATH)
                   then refreshToken env now s
                   else (Inr False, s)) of
               (Inl e, s1) \<Rightarrow> (Inl e, s1)
             | (Inr _, s1) \<Rightarrow>
                 (case read_attr (tokenKey s1) of
                    JStr t \<Rightarrow>
                      do_request env s1
                        \<lparr>c_method = httpMethod, c_endpointURL = endpointURL, c_reqPath = reqPath,
                         c_params = params,
                         c_headers = headers1(''Authorization'' \<mapsto> ''Bearer '' @ t),
                         c_data = jsonEntity, c_auth = None\<rparr>
                  | _ \<Rightarrow> (Inl TypeError, s1)))
          else
            do_request env s
              \<lparr>c_method = httpMethod, c_endpointURL = endpointURL, c_reqPath = reqPath,
               c_params = params, c_headers = headers1, c_data = jsonEntity,
               c_auth = (if do_sign
                         then Some (the (accessKey s), the (secretKey s),
                                    replace_str ''https://'' [] (replace_str ''http://'' [] (getEndpoint s)))
                         else None)\<rparr>)"
| "refreshToken env now s =
     (case notexpired s now of
        Inl e \<Rightarrow> (Inl e, s)
      | Inr ne \<Rightarrow>
          (case canrefresh s now of
             Inl e \<Rightarrow> (Inl e, s)
           | Inr cr \<Rightarrow>
               if truthy (read_attr (tokenKey s)) \<and> ne \<and> cr then
                 (case invokeGet env now s JWT_PATH [] of
                    (Inl e, s1) \<Rightarrow> (Inl e, s1)
                  | (Inr res, s1) \<Rightarrow>
                      (case getEntity res (errlog s1) of
                         Inl e \<Rightarrow> (Inl e, s1)
                       | Inr (result, log) \<Rightarrow>
                           let s2 = s1\<lparr>errlog := log\<rparr> in
                           if \<not> truthy result then
                             (case clearAccessToken s2 of
                                (Inl e, s3) \<Rightarrow> (Inl e, s3)
                              | (Inr _, s3) \<Rightarrow> (Inr False, s3))
                           else
                             (case subscript result ''user'' of
                                Inl e \<Rightarrow> (Inl e, s2)
                              | Inr user \<Rightarrow>
                                  if \<not> truthy user then
                                    (case clearAccessToken s2 of
                                       (Inl e, s3) \<Rightarrow> (Inl e, s3)
                                     | (Inr _, s3) \<Rightarrow> (Inr False, s3))
                                  else
                                    (case subscript result ''jwt'' of
                                       Inl e \<Rightarrow> (Inl e, s2)
                                     | Inr jwt_data \<Rightarrow>
                                         if \<not> truthy jwt_data then
                                           (case clearAccessToken s2 of
                                              (Inl e, s3) \<Rightarrow> (Inl e, s3)
                                            | (Inr _, s3) \<Rightarrow> (Inr False, s3))
                                         else
                                           (case subscript jwt_data ''access_token'' of
                                              Inl e \<Rightarrow> (Inl e, s2)
                                            | Inr tok \<Rightarrow>
                                                (case subscript jwt_data ''expires'' of
                                                   Inl e \<Rightarrow> (Inl e, s2\<lparr>tokenKey := Some tok\<rparr>)
                                                 | Inr ex \<Rightarrow>
                                                     (case subscript jwt_data ''refresh'' of
                                                        Inl e \<Rightarrow>
                                                          (Inl e, s2\<lparr>tokenKey := Some tok,
                                                                      tokenKeyExpires := Some ex\<rparr>)
                                                      | Inr rf \<Rightarrow>
                                                          (Inr True,
                                                           s2\<lparr>tokenKey := Some tok,
                                                              tokenKeyExpires := Some ex,
                                                              tokenKeyNextRefresh := Some rf\<rparr>))))))))
               else (Inr False, s)))"
| "invokeGet env now s resourcePath params =
     (case getFullPath s resourcePath of
        (p, s') \<Rightarrow> invokeSignedRequest env now s' ''GET'' (getEndpoint s) p Map.empty params None)"
  by pat_completeness auto
termination
  apply (relation "measure (\<lambda>x. case x of
            Inl (env, now, s, m, eu, rp, h, p, d) \<Rightarrow> (if m = ''GET'' \<and> rp = JWT_PATH then 0 else 3)
          | Inr (Inl (env, now, s)) \<Rightarrow> 2
          | Inr (Inr (env, now, s, res, p)) \<Rightarrow> (if res = JWT_PATH then 1 else 4))")
     apply (auto simp: getFullPath_def JWT_PATH_def startswith_def)
  done

declare invokeSignedRequest.simps [simp del] refreshToken.simps [simp del]
  invokeGet.simps [simp del]

text \<open>The client as \<open>__init__\<close> leaves it: no token attribute on the instance.\<close>

definition init_client :: "string option \<Rightarrow> string option \<Rightarrow> client" where
  "init_client ak sk =
     \<lparr>endpoint = Some DEFAULT_ENDPOINT, accessKey = ak, secretKey = sk,
      path = Some ''/v1/'', tokenKey = None, tokenKeyExpires = None,
      tokenKeyNextRefresh = None, calls = [], errlog = []\<rparr>"

section \<open>Auxiliary notions for the statements\<close>

text \<open>The per-byte view of \<open>urlenc\<close> (proved equal to it below).\<close>

definition enc1 :: "char \<Rightarrow> string" where
  "enc1 c = (if always_safe c then [c] else pct c)"

text \<open>A kept pair as the loop appends it to \<open>querystring\<close>, and as it stands
  in a query string before encoding.\<close>

definition enc_pair :: "string \<times> string \<Rightarrow> string" where
  "enc_pair kv = fst kv @ ''='' @ urlenc (snd kv)"

definition raw_pair :: "string \<times> string \<Rightarrow> string" where
  "raw_pair kv = fst kv @ ''='' @ snd kv"

definition reencode :: "string \<times> string \<Rightarrow> string \<times> string" where
  "reencode kv = (fst kv, urlenc (snd kv))"

fun join_amp :: "string list \<Rightarrow> string" where
  "join_amp [] = []"
| "join_amp [x] = x"
| "join_amp (x # y # ys) = x @ ''&'' @ join_amp (y # ys)"

text \<open>The key of a parameter, and the non-empty keys of the non-empty
  parameters, in order (the loop skips empty parameters and empty keys).\<close>

definition key_of :: "string \<Rightarrow> string" where
  "key_of p = fst (split1 CHR ''='' p)"

definition keys_of :: "string list \<Rightarrow> string list" where
  "keys_of ps = filter (\<lambda>k. k \<noteq> []) (map key_of (filter (\<lambda>p. p \<noteq> []) ps))"

text \<open>Every non-empty parameter has an \<open>=\<close>: the loop raises on any other.\<close>

definition well_formed :: "string list \<Rightarrow> bool" where
  "well_formed ps = list_all (\<lambda>p. p = [] \<or> CHR ''='' \<in> set p) ps"

text \<open>The loop invariant: \<open>querystring\<close> is the dict joined with \<open>&\<close>, and
  the dict's keys are distinct and non-empty.\<close>

definition canon_inv :: "canon \<Rightarrow> bool" where
  "canon_inv st =
     (querystring st = join_amp (map enc_pair (query st))
      \<and> distinct (map fst (query st))
      \<and> [] \<notin> fst ` set (query st))"

definition no_duplicate_keys :: "string \<Rightarrow> bool" where
  "no_duplicate_keys q = distinct (keys_of (split_on CHR ''&'' q))"

text \<open>Every value of the query string has only always-safe characters.\<close>

definition plain_values :: "string \<Rightarrow> bool" where
  "plain_values q =
     list_all (\<lambda>p. case snd (split1 CHR ''='' p) of
                      None \<Rightarrow> True
                    | Some v \<Rightarrow> list_all always_safe v)
       (split_on CHR ''&'' q)"

section \<open>Auxiliary notions for the dispatcher\<close>

text \<open>The call \<open>refreshToken\<close> makes through \<open>invokeGet(JWT_PATH)\<close> when the token is the string \<open>t\<close>.\<close>

definition refresh_call :: "client \<Rightarrow> string \<Rightarrow> call" where
  "refresh_call s t =
     \<lparr>c_method = ''GET'', c_endpointURL = getEndpoint s, c_reqPath = JWT_PATH,
      c_params = [], c_headers = [''Authorization'' \<mapsto> ''Bearer '' @ t],
      c_data = None, c_auth = None\<rparr>"

text \<open>The condition of the \<open>if\<close> in \<open>refreshToken\<close>: the refresh request is made.\<close>

definition refresh_due :: "client \<Rightarrow> int \<Rightarrow> bool" where
  "refresh_due s now =
     (truthy (read_attr (tokenKey s)) \<and> notexpired s now = Inr True \<and> canrefresh s now = Inr True)"

text \<open>All three token attributes are gone from the instance.\<close>

definition cleared :: "client \<Rightarrow> bool" where
  "cleared s = (tokenKey s = None \<and> tokenKeyExpires s = None \<and> tokenKeyNextRefresh s = None)"

text \<open>The answer of the refresh endpoint makes \<open>result and result["user"] and result["jwt"]\<close> false without raising: the \<open>else\<close> branch of \<open>refreshToken\<close> runs.\<close>

definition refresh_failed :: "response option \<Rightarrow> string list \<Rightarrow> bool" where
  "refresh_failed res log =
     (case getEntity res log of
        Inl e \<Rightarrow> False
      | Inr (result, log') \<Rightarrow>
          \<not> truthy result
          \<or> (case subscript result ''user'' of
                Inl e \<Rightarrow> False
              | Inr user \<Rightarrow>
                  \<not> truthy user
                  \<or> (case subscript result ''jwt'' of
                        Inl e \<Rightarrow> False
                      | Inr jwt_data \<Rightarrow> \<not> truthy jwt_data)))"

text \<open>What \<open>refreshToken\<close> does with the response of its request (the text of the function from \<open>getEntity\<close> on).\<close>

definition after_response :: "response option \<Rightarrow> client \<Rightarrow> bool result" where
  "after_response res s1 =
     (case getEntity res (errlog s1) of
        Inl e \<Rightarrow> (Inl e, s1)
      | Inr (result, log) \<Rightarrow>
          let s2 = s1\<lparr>errlog := log\<rparr> in
          if \<not> truthy result then
            (case clearAccessToken s2 of
               (Inl e, s3) \<Rightarrow> (Inl e, s3)
             | (Inr _, s3) \<Rightarrow> (Inr False, s3))
          else
            (case subscript result ''user'' of
               Inl e \<Rightarrow> (Inl e, s2)
             | Inr user \<Rightarrow>
                 if \<not> truthy user then
                   (case clearAccessToken s2 of
                      (Inl e, s3) \<Rightarrow> (Inl e, s3)
                    | (Inr _, s3) \<Rightarrow> (Inr False, s3))
                 else
                   (case subscript result ''jwt'' of
                      Inl e \<Rightarrow> (Inl e, s2)
                    | Inr jwt_data \<Rightarrow>
                        if \<not> truthy jwt_data then
                          (case clearAccessToken s2 of
                             (Inl e, s3) \<Rightarrow> (Inl e, s3)
                           | (Inr _, s3) \<Rightarrow> (Inr False, s3))
                        else
                          (case subscript jwt_data ''access_token'' of
                             Inl e \<Rightarrow> (Inl e, s2)
                           | Inr tok \<Rightarrow>
                               (case subscript jwt_data ''expires'' of
                                  Inl e \<Rightarrow> (Inl e, s2\<lparr>tokenKey := Some tok\<rparr>)
                                | Inr ex \<Rightarrow>
                                    (case subscript jwt_data ''refresh'' of
                                       Inl e \<Rightarrow>
                                         (Inl e, s2\<lparr>tokenKey := Some tok,
                                                     tokenKeyExpires := Some ex\<rparr>)
                                     | Inr rf \<Rightarrow>
                                         (Inr True,
                                          s2\<lparr>tokenKey := Some tok,
                                             tokenKeyExpires := Some ex,
                                             tokenKeyNextRefresh := Some rf\<rparr>)))))))"

text \<open>A call of the token-refresh endpoint with method \<open>GET\<close>.\<close>

definition is_refresh :: "call \<Rightarrow> bool" where
  "is_refresh c = (c_method c = ''GET'' \<and> c_reqPath c = JWT_PATH)"

text \<open>The calls made between two states of the client.\<close>

definition new_calls :: "client \<Rightarrow> client \<Rightarrow> call list" where
  "new_calls s s' = drop (length (calls s)) (calls s')"

text \<open>The rest of \<open>invokeSignedRequest\<close> on the bearer path, after the refresh: the header is attached and the call made.\<close>

definition bearer_request ::
  "env \<Rightarrow> client \<Rightarrow> string \<Rightarrow> string \<Rightarrow> string \<Rightarrow> (string \<rightharpoonup> string)
     \<Rightarrow> (string \<times> string) list \<Rightarrow> string option \<Rightarrow> response option result" where
  "bearer_request env s1 m eu rp h p d =
     (case read_attr (tokenKey s1) of
        JStr t \<Rightarrow>
          do_request env s1
            \<lparr>c_method = m, c_endpointURL = eu, c_reqPath = rp, c_params = p,
             c_headers = h(''Authorization'' \<mapsto> ''Bearer '' @ t), c_data = d,
             c_auth = None\<rparr>
      | _ \<Rightarrow> (Inl TypeError, s1))"

text \<open>\<open>isRefreshDue(now)\<close> in the words of the specification, for comparison with \<open>refresh_due\<close>: a token is set, \<open>now < expiresAtEpochMs\<close>, and \<open>nextRefreshAtEpochMs\<close> is set with \<open>now >= nextRefreshAtEpochMs\<close> or \<open>nextRefreshAtEpochMs > expiresAtEpochMs\<close>.\<close>

definition spec_isRefreshDue :: "client \<Rightarrow> int \<Rightarrow> bool" where
  "spec_isRefreshDue s now =
     (case (read_attr (tokenKey s), read_attr (tokenKeyExpires s),
            read_attr (tokenKeyNextRefresh s)) of
        (JStr t, JInt e, JInt r) \<Rightarrow> now < e \<and> (now \<ge> r \<or> r > e)
      | _ \<Rightarrow> False)"

text \<open>The payload of a token cannot be decoded: the token has fewer than two
  segments, or its second segment (padded with \<open>==\<close>) does not decode.\<close>

definition undecodable :: "env \<Rightarrow> string \<Rightarrow> bool" where
  "undecodable env t =
     (case split_on CHR ''.'' t of
        _ # seg # _ \<Rightarrow> decode_payload env (seg @ ''=='') = None
      | _ \<Rightarrow> True)"

section \<open>Concrete inputs for the witnesses\<close>

text \<open>A signer that records, as the \<open>Authorization\<close> header, the URL it was
  asked to sign; and a \<open>GET\<close> request with no headers and no body.\<close>

definition demo_sign :: signer where
  "demo_sign r = [''Authorization'' \<mapsto> r_url r]"

definition demo_request :: "string \<Rightarrow> prepared_request" where
  "demo_request u = \<lparr>r_method = ''GET'', r_url = u, r_headers = Map.empty, r_body = None\<rparr>"

text \<open>A response with a status code and a JSON body; a network that answers
  the refresh call with a given response and everything else with \<open>200 {}\<close>;
  and a client holding the token \<open>t\<close> with expiry \<open>e\<close> and next refresh \<open>r\<close>.\<close>

definition resp :: "int \<Rightarrow> json option \<Rightarrow> response" where
  "resp code body = \<lparr>status_code = code, json_body = body, text_body = [], reason = []\<rparr>"

definition demo_env :: "response \<Rightarrow> env" where
  "demo_env refresh_answer =
     \<lparr>prepare_url = (\<lambda>u ps. Some u),
      aws_sign = (\<lambda>a. demo_sign),
      send = (\<lambda>history r. if r_url r = ''https://paraio.com/jwt_auth'' \<and> r_method r = ''GET''
                             then Some refresh_answer else Some (resp 200 (Some (JObj [])))),
      decode_payload = (\<lambda>seg. None)\<rparr>"

definition signed_in :: "string \<Rightarrow> int \<Rightarrow> int \<Rightarrow> client" where
  "signed_in t e r =
     (init_client (Some ''app'') (Some ''secret''))
       \<lparr>tokenKey := Some (JStr t), tokenKeyExpires := Some (JInt e),
        tokenKeyNextRefresh := Some (JInt r)\<rparr>"

text \<open>A network whose refresh endpoint answers with a new token \<open>t2\<close>
  (expiry 200, next refresh 150); and a client holding a token with no expiry
  and no next-refresh time.\<close>

definition refreshed_env :: env where
  "refreshed_env =
     demo_env (resp 200 (Some (JObj
       [(''user'', JObj [(''id'', JStr ''u'')]),
        (''jwt'', JObj [(''access_token'', JStr ''t2''), (''expires'', JInt 200),
                        (''refresh'', JInt 150)])])))"

definition unparsed_token :: client where
  "unparsed_token = (init_client (Some ''app'') (Some ''secret''))\<lparr>tokenKey := Some (JStr ''abc'')\<rparr>"

section \<open>Lemmas about the string operations and the canonicalization loop\<close>

lemma split_on_nonempty: "split_on sep s \<noteq> []"
  by (induction s) (auto split: list.splits)

lemma split_on_no_sep: "x \<in> set (split_on sep s) \<Longrightarrow> sep \<notin> set x"
proof (induction s arbitrary: x)
  case Nil
  then show ?case by simp
next
  case (Cons c cs)
  then show ?case
    by (cases "split_on sep cs") (auto split: if_splits)
qed

lemma split_on_plain: "sep \<notin> set x \<Longrightarrow> split_on sep x = [x]"
  by (induction x) auto

lemma split_on_append: "sep \<notin> set x \<Longrightarrow> split_on sep (x @ sep # rest) = x # split_on sep rest"
  by (induction x) auto

lemma split1_pair: "sep \<notin> set k \<Longrightarrow> split1 sep (k @ sep # v) = (k, Some v)"
  by (simp add: split1_def takeWhile_tail dropWhile_append)

lemma split1_fst_no_sep: "sep \<notin> set (fst (split1 sep p))"
  by (auto simp add: split1_def dest: set_takeWhileD)

lemma split1_None: "snd (split1 sep p) = None \<longleftrightarrow> sep \<notin> set p"
proof (cases "dropWhile (\<lambda>c. c \<noteq> sep) p")
  case Nil
  then have "sep \<notin> set p"
    using dropWhile_eq_Nil_conv[of "\<lambda>c. c \<noteq> sep" p] by auto
  moreover have "snd (split1 sep p) = None"
    unfolding split1_def Nil by simp
  ultimately show ?thesis by simp
next
  case (Cons x xs)
  then have "sep \<in> set p"
    using dropWhile_eq_Nil_conv[of "\<lambda>c. c \<noteq> sep" p] by auto
  moreover have "snd (split1 sep p) \<noteq> None"
    unfolding split1_def Cons by simp
  ultimately show ?thesis by simp
qed

lemma split1_Some: "split1 sep p = (k, Some v) \<Longrightarrow> p = k @ sep # v"
proof -
  assume a: "split1 sep p = (k, Some v)"
  have "p = takeWhile (\<lambda>c. c \<noteq> sep) p @ dropWhile (\<lambda>c. c \<noteq> sep) p" by simp
  moreover from a have k: "k = takeWhile (\<lambda>c. c \<noteq> sep) p" by (simp add: split1_def)
  moreover from a obtain x where d: "dropWhile (\<lambda>c. c \<noteq> sep) p = x # v"
    by (auto simp add: split1_def split: list.splits)
  moreover have "x = sep" using hd_dropWhile[of "\<lambda>c. c \<noteq> sep" p] d by auto
  ultimately show ?thesis by simp
qed

lemma replace_single: "replace_str [a] new s = concat (map (\<lambda>c. if c = a then new else [c]) s)"
  by (induction s) (auto simp: startswith_def)

lemma hexdigit_safe: "always_safe (hexdigit n)"
proof -
  have "hexdigit n \<in> set ''0123456789ABCDEF''"
    unfolding hexdigit_def by (rule nth_mem) simp
  then show ?thesis by (auto simp: always_safe_def)
qed

lemma safe_not_special: "always_safe c \<Longrightarrow> c \<noteq> CHR '' '' \<and> c \<noteq> CHR ''+'' \<and> c \<noteq> CHR ''%'' \<and> c \<noteq> CHR ''&'' \<and> c \<noteq> CHR ''='' \<and> c \<noteq> CHR ''#''"
  by (auto simp: always_safe_def)

lemma pct_chars: "x \<in> set (pct c) \<Longrightarrow> x = CHR ''%'' \<or> always_safe x"
  by (auto simp: pct_def hexdigit_safe)

lemma replace_pct: "a \<noteq> CHR ''%'' \<Longrightarrow> \<not> always_safe a \<Longrightarrow> concat (map (\<lambda>c. if c = a then new else [c]) (pct d)) = pct d"
  using hexdigit_safe by (auto simp: pct_def)

lemma space_not_safe: "\<not> always_safe CHR '' ''" "\<not> always_safe CHR ''+''"
  by (auto simp: always_safe_def)

lemma pct_space: "pct CHR '' '' = ''%20''"
  by (simp add: pct_def hexdigit_def)

lemma concat_map_concat: "concat (map f (concat (map g s))) = concat (map (\<lambda>c. concat (map f (g c))) s)"
  by (induction s) auto

lemma urlenc_eq: "urlenc s = concat (map enc1 s)"
proof -
  let ?rp = "\<lambda>c. if c = CHR ''+'' then ''%20'' else [c]"
  let ?rs = "\<lambda>c. if c = CHR '' '' then ''+'' else [c]"
  have plain: "concat (map ?rp (if always_safe c then [c] else pct c)) = enc1 c"
    if "c \<noteq> CHR '' ''" for c
    using replace_pct[of "CHR ''+''" "''%20''" c] space_not_safe
    by (auto simp: enc1_def)
  show ?thesis
  proof (cases "CHR '' '' \<in> set s")
    case False
    then have "urlenc s = concat (map (\<lambda>c. concat (map ?rp (if always_safe c then [c] else pct c))) s)"
      by (simp add: urlenc_def quote_plus_def quote_def replace_single concat_map_concat)
    also have "\<dots> = concat (map enc1 s)"
      using False by (intro arg_cong[where f=concat] map_cong refl plain) auto
    finally show ?thesis .
  next
    case True
    have step: "concat (map ?rp (concat (map ?rs (if always_safe c \<or> c \<in> set '' '' then [c] else pct c)))) = enc1 c" for c
    proof (cases "c = CHR '' ''")
      case True
      then show ?thesis using space_not_safe by (simp add: enc1_def pct_space)
    next
      case False
      then show ?thesis
        using replace_pct[of "CHR '' ''" "''+''" c] replace_pct[of "CHR ''+''" "''%20''" c] space_not_safe
          safe_not_special[of c]
        by (auto simp: enc1_def)
    qed
    from True have "urlenc s = concat (map (\<lambda>c. concat (map ?rp (concat (map ?rs (if always_safe c \<or> c \<in> set '' '' then [c] else pct c))))) s)"
      by (simp add: urlenc_def quote_plus_def quote_def replace_single concat_map_concat)
    also have "\<dots> = concat (map enc1 s)"
      by (intro arg_cong[where f=concat] map_cong refl step)
    finally show ?thesis .
  qed
qed

lemma urlenc_chars: "x \<in> set (urlenc v) \<Longrightarrow> x = CHR ''%'' \<or> always_safe x"
  using pct_chars by (auto simp: urlenc_eq enc1_def split: if_splits)

lemma urlenc_safe: "list_all always_safe v \<Longrightarrow> urlenc v = v"
  by (induction v) (auto simp: urlenc_eq enc1_def)

lemma join_amp_Nil_iff: "[] \<notin> set xs \<Longrightarrow> join_amp xs = [] \<longleftrightarrow> xs = []"
  by (induction xs rule: join_amp.induct) auto

lemma join_amp_snoc:
  "[] \<notin> set xs \<Longrightarrow>
   join_amp (xs @ [x]) = (if join_amp xs \<noteq> [] then join_amp xs @ ''&'' else join_amp xs) @ x"
  by (induction xs rule: join_amp.induct) (auto simp: join_amp_Nil_iff)

lemma enc_pair_nonempty: "enc_pair kv \<noteq> []"
  by (simp add: enc_pair_def)

lemma canon_step_cases:
  assumes "canon_step p st = Inr st'"
  shows "(st' = st \<and> (p = [] \<or> key_of p = [] \<or> (key_of p \<in> fst ` set (query st) \<and> multi_valued_params st)))
     \<or> (st' = st\<lparr>multi_valued_params := True\<rparr> \<and> p \<noteq> [] \<and> key_of p \<in> fst ` set (query st))
     \<or> (\<exists>v. p \<noteq> [] \<and> split1 CHR ''='' p = (key_of p, Some v) \<and> key_of p \<noteq> [] \<and> key_of p \<notin> fst ` set (query st)
          \<and> st' = st\<lparr>query := query st @ [(key_of p, v)],
                     querystring := (if querystring st \<noteq> [] then querystring st @ ''&''
                                     else querystring st) @ enc_pair (key_of p, v)\<rparr>)"
  using assms
  by (auto simp: canon_step_def key_of_def enc_pair_def split: if_splits prod.splits option.splits)

lemma canon_step_inv:
  assumes "canon_step p st = Inr st'" "canon_inv st"
  shows "canon_inv st'"
proof -
  have ne: "[] \<notin> set (map enc_pair (query st))"
    by (auto simp: enc_pair_def)
  from canon_step_cases[OF assms(1)] consider
      (same) "st' = st"
    | (flag) "st' = st\<lparr>multi_valued_params := True\<rparr>"
    | (add) v where "key_of p \<noteq> []" "key_of p \<notin> fst ` set (query st)"
        "st' = st\<lparr>query := query st @ [(key_of p, v)],
                     querystring := (if querystring st \<noteq> [] then querystring st @ ''&''
                                     else querystring st) @ enc_pair (key_of p, v)\<rparr>"
    by blast
  then show ?thesis
  proof cases
    case same
    with assms(2) show ?thesis by simp
  next
    case flag
    with assms(2) show ?thesis by (simp add: canon_inv_def)
  next
    case add
    have "querystring st' = join_amp (map enc_pair (query st) @ [enc_pair (key_of p, v)])"
      using assms(2) join_amp_snoc[OF ne, of "enc_pair (key_of p, v)"] add(3)
      by (simp add: canon_inv_def)
    then show ?thesis
      using assms(2) add by (auto simp: canon_inv_def)
  qed
qed

lemma canon_loop_inv:
  "canon_loop ps st = Inr st' \<Longrightarrow> canon_inv st \<Longrightarrow> canon_inv st'"
proof (induction ps arbitrary: st)
  case Nil
  then show ?case by simp
next
  case (Cons p ps)
  then show ?case
    by (auto split: sum.splits dest: canon_step_inv)
qed

lemma canon_inv_init: "canon_inv canon_init"
  by (simp add: canon_inv_def canon_init_def)

lemma canon_loop_append:
  "canon_loop (xs @ ys) st =
     (case canon_loop xs st of Inl e \<Rightarrow> Inl e | Inr st' \<Rightarrow> canon_loop ys st')"
  by (induction xs arbitrary: st) (auto split: sum.splits)

lemma canon_step_ok:
  "p = [] \<or> CHR ''='' \<in> set p \<Longrightarrow> \<exists>st'. canon_step p st = Inr st'"
  using split1_None[of "CHR ''=''" p]
  by (cases "split1 CHR ''='' p") (auto simp: canon_step_def split: option.splits)

lemma canon_step_err:
  "canon_step p st = Inl e \<Longrightarrow> e = IndexError \<and> p \<noteq> [] \<and> CHR ''='' \<notin> set p"
  using split1_None[of "CHR ''=''" p]
  by (cases "split1 CHR ''='' p") (auto simp: canon_step_def split: option.splits if_splits)

lemma canon_loop_ok:
  "well_formed ps \<Longrightarrow> \<exists>st'. canon_loop ps st = Inr st'"
proof (induction ps arbitrary: st)
  case Nil
  then show ?case by simp
next
  case (Cons p ps)
  from Cons.prems have "p = [] \<or> CHR ''='' \<in> set p" "well_formed ps"
    by (auto simp: well_formed_def)
  then show ?case
    using canon_step_ok[of p st] Cons.IH by (auto split: sum.splits)
qed

lemma canon_loop_err:
  "canon_loop ps st = Inl e \<Longrightarrow> e = IndexError \<and> \<not> well_formed ps"
proof (induction ps arbitrary: st)
  case Nil
  then show ?case by simp
next
  case (Cons p ps)
  then show ?case
    by (auto simp: well_formed_def split: sum.splits dest: canon_step_err)
qed

lemma keys_of_single: "set (keys_of [p]) = (if p = [] \<or> key_of p = [] then {} else {key_of p})"
  by (auto simp add: keys_of_def)

lemma canon_step_keys:
  assumes "canon_step p st = Inr st'"
  shows "fst ` set (query st') = fst ` set (query st) \<union> set (keys_of [p])"
  using canon_step_cases[OF assms] unfolding keys_of_single
  by (elim disjE exE conjE) auto

lemma keys_of_Cons: "keys_of (p # ps) = keys_of [p] @ keys_of ps"
  by (simp add: keys_of_def)

lemma canon_loop_keys:
  "canon_loop ps st = Inr st' \<Longrightarrow>
   fst ` set (query st') = fst ` set (query st) \<union> set (keys_of ps)"
proof (induction ps arbitrary: st)
  case Nil
  then show ?case by (simp add: keys_of_def)
next
  case (Cons p ps)
  from Cons.prems obtain st1 where s: "canon_step p st = Inr st1" "canon_loop ps st1 = Inr st'"
    by (auto split: sum.splits)
  show ?case
    using Cons.IH[OF s(2)] canon_step_keys[OF s(1)] keys_of_Cons[of p ps] by auto
qed

lemma canon_step_multi:
  assumes "canon_step p st = Inr st'" "[] \<notin> fst ` set (query st)"
  shows "multi_valued_params st' =
         (multi_valued_params st \<or> set (keys_of [p]) \<inter> fst ` set (query st) \<noteq> {})"
  using canon_step_cases[OF assms(1)] assms(2) unfolding keys_of_single
  by (elim disjE exE conjE) force+

lemma canon_loop_multi:
  "canon_loop ps st = Inr st' \<Longrightarrow> canon_inv st \<Longrightarrow>
   multi_valued_params st' =
     (multi_valued_params st \<or> \<not> distinct (keys_of ps)
      \<or> set (keys_of ps) \<inter> fst ` set (query st) \<noteq> {})"
proof (induction ps arbitrary: st)
  case Nil
  then show ?case by (simp add: keys_of_def)
next
  case (Cons p ps)
  from Cons.prems obtain st1 where s: "canon_step p st = Inr st1" "canon_loop ps st1 = Inr st'"
    by (auto split: sum.splits)
  have i1: "canon_inv st1" using canon_step_inv[OF s(1) Cons.prems(2)] .
  have ne: "[] \<notin> fst ` set (query st)" using Cons.prems(2) by (simp add: canon_inv_def)
  have m1: "multi_valued_params st1 =
         (multi_valued_params st \<or> set (keys_of [p]) \<inter> fst ` set (query st) \<noteq> {})"
    using canon_step_multi[OF s(1) ne] .
  have k1: "fst ` set (query st1) = fst ` set (query st) \<union> set (keys_of [p])"
    using canon_step_keys[OF s(1)] .
  have d1: "distinct (keys_of [p])" by (simp add: keys_of_def)
  show ?case
    unfolding Cons.IH[OF s(2) i1] m1 k1 keys_of_Cons[of p ps]
    using d1 by auto
qed

lemma canon_step_prefix:
  "canon_step p st = Inr st' \<Longrightarrow> \<exists>new. query st' = query st @ new"
  by (drule canon_step_cases) auto

lemma canon_loop_prefix:
  "canon_loop ps st = Inr st' \<Longrightarrow> \<exists>new. query st' = query st @ new"
proof (induction ps arbitrary: st)
  case Nil
  then show ?case by simp
next
  case (Cons p ps)
  from Cons.prems obtain st1 where s: "canon_step p st = Inr st1" "canon_loop ps st1 = Inr st'"
    by (auto split: sum.splits)
  from canon_step_prefix[OF s(1)] Cons.IH[OF s(2)] show ?case by auto
qed

lemma canon_step_content:
  "canon_step p st = Inr st' \<Longrightarrow> (k, v) \<in> set (query st') \<Longrightarrow>
   (k, v) \<in> set (query st) \<or> (split1 CHR ''='' p = (k, Some v))"
  by (drule canon_step_cases) auto

lemma canon_loop_content:
  "canon_loop ps st = Inr st' \<Longrightarrow> (k, v) \<in> set (query st') \<Longrightarrow>
   (k, v) \<in> set (query st) \<or> (\<exists>p \<in> set ps. split1 CHR ''='' p = (k, Some v))"
proof (induction ps arbitrary: st)
  case Nil
  then show ?case by simp
next
  case (Cons p ps)
  from Cons.prems obtain st1 where s: "canon_step p st = Inr st1" "canon_loop ps st1 = Inr st'"
    by (auto split: sum.splits)
  from Cons.IH[OF s(2) Cons.prems(2)] canon_step_content[OF s(1), of k v] show ?case by auto
qed

lemma split_join:
  "xs \<noteq> [] \<Longrightarrow> \<forall>x \<in> set xs. CHR ''&'' \<notin> set x \<Longrightarrow> split_on CHR ''&'' (join_amp xs) = xs"
proof (induction xs rule: join_amp.induct)
  case 1
  then show ?case by simp
next
  case (2 x)
  then show ?case by (simp add: split_on_plain)
next
  case (3 x y ys)
  then show ?case using split_on_append[of "CHR ''&''" x "join_amp (y # ys)"] by simp
qed

lemma canon_step_fresh:
  assumes "k \<noteq> []" "CHR ''='' \<notin> set k" "k \<notin> fst ` set (query st)"
  shows "canon_step (raw_pair (k, v)) st =
     Inr (st\<lparr>query := query st @ [(k, v)],
              querystring := (if querystring st \<noteq> [] then querystring st @ ''&''
                              else querystring st) @ enc_pair (k, v)\<rparr>)"
  using assms split1_pair[of "CHR ''=''" k v]
  by (simp add: canon_step_def raw_pair_def enc_pair_def)

lemma canon_loop_fresh:
  "distinct (map fst ps) \<Longrightarrow> [] \<notin> fst ` set ps \<Longrightarrow> \<forall>k \<in> fst ` set ps. CHR ''='' \<notin> set k \<Longrightarrow>
   fst ` set ps \<inter> fst ` set (query st) = {} \<Longrightarrow>
   \<exists>st'. canon_loop (map raw_pair ps) st = Inr st' \<and> query st' = query st @ ps
      \<and> multi_valued_params st' = multi_valued_params st"
proof (induction ps arbitrary: st)
  case Nil
  then show ?case by simp
next
  case (Cons kv ps)
  obtain k v where kv: "kv = (k, v)" by (cases kv)
  let ?st1 = "st\<lparr>query := query st @ [(k, v)],
              querystring := (if querystring st \<noteq> [] then querystring st @ ''&''
                              else querystring st) @ enc_pair (k, v)\<rparr>"
  have f: "canon_step (raw_pair (k, v)) st = Inr ?st1"
    using Cons.prems kv by (intro canon_step_fresh) auto
  have "\<exists>st'. canon_loop (map raw_pair ps) ?st1 = Inr st' \<and> query st' = query ?st1 @ ps
      \<and> multi_valued_params st' = multi_valued_params ?st1"
    using Cons.prems kv by (intro Cons.IH) auto
  then show ?case using f kv by auto
qed

lemma canonicalize_inv: "canonicalize q = Inr st \<Longrightarrow> canon_inv st"
  unfolding canonicalize_def using canon_loop_inv canon_inv_init by blast

lemma canonicalize_content:
  assumes "canonicalize q = Inr st" "(k, v) \<in> set (query st)"
  shows "\<exists>p \<in> set (split_on CHR ''&'' q). split1 CHR ''='' p = (k, Some v)"
  using canon_loop_content[OF assms(1)[unfolded canonicalize_def] assms(2)]
  by (simp add: canon_init_def)

lemma canonicalize_key_chars:
  assumes "canonicalize q = Inr st" "(k, v) \<in> set (query st)"
  shows "CHR ''&'' \<notin> set k \<and> CHR ''='' \<notin> set k \<and> k \<noteq> []"
proof -
  from canonicalize_content[OF assms] obtain p where
    p: "p \<in> set (split_on CHR ''&'' q)" "split1 CHR ''='' p = (k, Some v)" by blast
  from split1_Some[OF p(2)] split_on_no_sep[OF p(1)] have "CHR ''&'' \<notin> set k" by auto
  moreover have "CHR ''='' \<notin> set k"
    using split1_fst_no_sep[of "CHR ''=''" p] p(2) by simp
  moreover have "k \<noteq> []"
    using canonicalize_inv[OF assms(1)] assms(2) by (force simp: canon_inv_def)
  ultimately show ?thesis by simp
qed

lemma enc_pair_no_amp: "CHR ''&'' \<notin> set k \<Longrightarrow> CHR ''&'' \<notin> set (enc_pair (k, v))"
  using urlenc_chars[of "CHR ''&''" v] safe_not_special[of "CHR ''&''"]
  by (auto simp: enc_pair_def)

lemma enc_pair_raw: "enc_pair kv = raw_pair (reencode kv)"
  by (simp add: enc_pair_def raw_pair_def reencode_def)

lemma canonicalize_empty: "canonicalize [] = Inr canon_init"
  by (simp add: canonicalize_def canon_step_def)

lemma canonicalize_twice:
  assumes "canonicalize q = Inr st"
  shows "\<exists>st2. canonicalize (querystring st) = Inr st2
           \<and> query st2 = map reencode (query st)
           \<and> querystring st2 = join_amp (map enc_pair (map reencode (query st)))"
proof (cases "query st = []")
  case True
  then have "querystring st = []"
    using canonicalize_inv[OF assms] by (simp add: canon_inv_def)
  with True show ?thesis
    by (simp add: canonicalize_empty canon_init_def)
next
  case False
  have inv: "canon_inv st" using canonicalize_inv[OF assms] .
  have kc: "\<And>k v. (k, v) \<in> set (query st) \<Longrightarrow>
      CHR ''&'' \<notin> set k \<and> CHR ''='' \<notin> set k \<and> k \<noteq> []"
    using canonicalize_key_chars[OF assms] by blast
  have noamp: "\<forall>x \<in> set (map enc_pair (query st)). CHR ''&'' \<notin> set x"
    using kc enc_pair_no_amp by auto
  have sp: "split_on CHR ''&'' (querystring st) = map raw_pair (map reencode (query st))"
  proof -
    have "split_on CHR ''&'' (querystring st) = map enc_pair (query st)"
      using inv False split_join[OF _ noamp] by (simp add: canon_inv_def)
    also have "\<dots> = map raw_pair (map reencode (query st))"
      by (simp add: enc_pair_raw)
    finally show ?thesis .
  qed
  have fk: "map fst (map reencode (query st)) = map fst (query st)"
    by (simp add: reencode_def comp_def)
  have fs: "fst ` set (map reencode (query st)) = fst ` set (query st)"
    using fk by (metis image_set)
  have d: "distinct (map fst (map reencode (query st)))"
    unfolding fk using inv by (simp add: canon_inv_def)
  have ne: "[] \<notin> fst ` set (map reencode (query st))"
    unfolding fs using inv by (simp add: canon_inv_def)
  have eq: "\<forall>k \<in> fst ` set (map reencode (query st)). CHR ''='' \<notin> set k"
    unfolding fs using kc by auto
  have dj: "fst ` set (map reencode (query st)) \<inter> fst ` set (query canon_init) = {}"
    by (simp add: canon_init_def)
  from canon_loop_fresh[OF d ne eq dj] obtain st2 where
    st2: "canon_loop (map raw_pair (map reencode (query st))) canon_init = Inr st2"
      "query st2 = query canon_init @ map reencode (query st)"
    by blast
  have inv2: "canon_inv st2" using canon_loop_inv[OF st2(1) canon_inv_init] .
  have "canonicalize (querystring st) = Inr st2"
    using st2(1) sp by (simp add: canonicalize_def)
  moreover have q2: "query st2 = map reencode (query st)"
    using st2(2) by (simp add: canon_init_def)
  moreover have "querystring st2 = join_amp (map enc_pair (map reencode (query st)))"
    using inv2 q2 by (simp add: canon_inv_def)
  ultimately show ?thesis by blast
qed

lemma plain_values_query:
  assumes "canonicalize q = Inr st" "plain_values q" "kv \<in> set (query st)"
  shows "reencode kv = kv"
proof -
  obtain k v where kv: "kv = (k, v)" by (cases kv)
  from canonicalize_content[OF assms(1), of k v] assms(3) kv obtain p where
    p: "p \<in> set (split_on CHR ''&'' q)" "split1 CHR ''='' p = (k, Some v)" by blast
  from assms(2) p have "list_all always_safe v"
    by (auto simp: plain_values_def list_all_iff)
  then show ?thesis using kv by (simp add: reencode_def urlenc_safe)
qed

lemma canon_loop_split:
  "canon_loop (xs @ ys) st = Inr st' \<Longrightarrow>
   \<exists>sm. canon_loop xs st = Inr sm \<and> canon_loop ys sm = Inr st'"
  by (simp add: canon_loop_append split: sum.splits)

lemma keys_of_append: "keys_of (xs @ ys) = keys_of xs @ keys_of ys"
  by (simp add: keys_of_def)

lemma key_of_raw: "CHR ''='' \<notin> set k \<Longrightarrow> key_of (k @ CHR ''='' # v) = k"
  by (simp add: key_of_def split1_pair)

lemma keys_of_raw_single:
  "k \<noteq> [] \<Longrightarrow> CHR ''='' \<notin> set k \<Longrightarrow> keys_of [k @ CHR ''='' # v] = [k]"
  by (simp add: keys_of_def key_of_raw)

lemma canonicalize_split:
  assumes "canonicalize q = Inr st" "query st \<noteq> []"
  shows "split_on CHR ''&'' (querystring st) = map enc_pair (query st)"
proof -
  have "\<forall>x \<in> set (map enc_pair (query st)). CHR ''&'' \<notin> set x"
    using canonicalize_key_chars[OF assms(1)] enc_pair_no_amp by auto
  then show ?thesis
    using canonicalize_inv[OF assms(1)] assms(2) split_join by (simp add: canon_inv_def)
qed

lemma canonicalize_ok:
  "well_formed (split_on CHR ''&'' q) \<Longrightarrow> \<exists>st. canonicalize q = Inr st"
  unfolding canonicalize_def by (rule canon_loop_ok)

lemma canonicalize_multi:
  assumes "canonicalize q = Inr st"
  shows "multi_valued_params st = (\<not> no_duplicate_keys q)"
  using canon_loop_multi[OF assms[unfolded canonicalize_def] canon_inv_init]
  by (simp add: canon_init_def no_duplicate_keys_def)

lemma canonicalize_keys:
  assumes "canonicalize q = Inr st"
  shows "fst ` set (query st) = set (keys_of (split_on CHR ''&'' q))"
  using canon_loop_keys[OF assms[unfolded canonicalize_def]]
  by (simp add: canon_init_def)

lemma first_value_kept:
  assumes "canon_loop (pre @ (k @ CHR ''='' # v1) # rest) canon_init = Inr st"
    and "k \<noteq> []" and "CHR ''='' \<notin> set k" and "k \<notin> key_of ` set pre"
  shows "(k, v1) \<in> set (query st)"
proof -
  from canon_loop_split[OF assms(1)] obtain sa where
    sa: "canon_loop pre canon_init = Inr sa"
        "canon_loop ((k @ CHR ''='' # v1) # rest) sa = Inr st" by blast
  have "fst ` set (query sa) = set (keys_of pre)"
    using canon_loop_keys[OF sa(1)] by (simp add: canon_init_def)
  then have fresh: "k \<notin> fst ` set (query sa)"
    using assms(4) by (auto simp: keys_of_def)
  have step: "canon_step (k @ CHR ''='' # v1) sa =
      Inr (sa\<lparr>query := query sa @ [(k, v1)],
              querystring := (if querystring sa \<noteq> [] then querystring sa @ ''&''
                              else querystring sa) @ enc_pair (k, v1)\<rparr>)"
    using canon_step_fresh[OF assms(2,3) fresh, of v1] by (simp add: raw_pair_def)
  with sa(2) obtain sb where
    sb: "canon_loop rest sb = Inr st" "query sb = query sa @ [(k, v1)]"
    by auto
  from canon_loop_prefix[OF sb(1)] sb(2) show ?thesis by auto
qed

lemma split_on_hd: "\<exists>rest. split_on sep s = takeWhile (\<lambda>c. c \<noteq> sep) s # rest"
  by (induction s) auto

lemma split_on_subset: "x \<in> set (split_on sep s) \<Longrightarrow> set x \<subseteq> set s"
proof (induction s arbitrary: x)
  case Nil
  then show ?case by simp
next
  case (Cons c cs)
  obtain a rest where sp: "split_on sep cs = a # rest"
    using split_on_nonempty[of sep cs] by (cases "split_on sep cs") auto
  have ih: "\<And>y. y \<in> set (a # rest) \<Longrightarrow> set y \<subseteq> set cs"
    using Cons.IH sp by simp
  show ?case
  proof (cases "c = sep")
    case True
    with Cons.prems sp have "x = [] \<or> x \<in> set (a # rest)" by simp
    with ih show ?thesis by auto
  next
    case False
    with Cons.prems sp have "x = c # a \<or> x \<in> set rest" by simp
    with ih[of a] ih[of x] show ?thesis by auto
  qed
qed

lemma join_amp_chars: "c \<in> set (join_amp xs) \<Longrightarrow> c = CHR ''&'' \<or> (\<exists>x \<in> set xs. c \<in> set x)"
  by (induction xs rule: join_amp.induct) auto

lemma tail_subset: "set (case xs of [] \<Rightarrow> [] | _ # q \<Rightarrow> q) \<subseteq> set xs"
  by (cases xs) auto

lemma urlparse_query_no_hash: "CHR ''#'' \<notin> set (urlparse_query url)"
proof
  let ?u = "takeWhile (\<lambda>c. c \<noteq> CHR ''#'') url"
  assume a: "CHR ''#'' \<in> set (urlparse_query url)"
  have "set (urlparse_query url) \<subseteq> set (dropWhile (\<lambda>c. c \<noteq> CHR ''?'') ?u)"
    unfolding urlparse_query_def by (rule tail_subset)
  with a have "CHR ''#'' \<in> set (dropWhile (\<lambda>c. c \<noteq> CHR ''?'') ?u)" by blast
  then have "CHR ''#'' \<in> set ?u" by (rule set_dropWhileD)
  from set_takeWhileD[OF this] show False by blast
qed

lemma tail_nonempty: "(case xs of [] \<Rightarrow> [] | _ # q \<Rightarrow> q) \<noteq> [] \<Longrightarrow> xs \<noteq> []"
  by (cases xs) auto

lemma canonicalize_no_hash:
  assumes "canonicalize q = Inr st" "CHR ''#'' \<notin> set q"
  shows "CHR ''#'' \<notin> set (querystring st)"
proof
  assume "CHR ''#'' \<in> set (querystring st)"
  then have "CHR ''#'' \<in> set (join_amp (map enc_pair (query st)))"
    using canonicalize_inv[OF assms(1)] by (simp add: canon_inv_def)
  from join_amp_chars[OF this] obtain x where
    x: "x \<in> set (map enc_pair (query st))" "CHR ''#'' \<in> set x" by blast
  then obtain kv where kv0: "kv \<in> set (query st)" "x = enc_pair kv" by auto
  obtain k v where kv1: "kv = (k, v)" by (cases kv)
  have kv: "(k, v) \<in> set (query st)" "CHR ''#'' \<in> set (enc_pair (k, v))"
    using kv0 kv1 x(2) by simp_all
  from canonicalize_content[OF assms(1) kv(1)] obtain p where
    p: "p \<in> set (split_on CHR ''&'' q)" "split1 CHR ''='' p = (k, Some v)" by blast
  have "set p \<subseteq> set q" using split_on_subset[OF p(1)] .
  moreover have "set k \<subseteq> set p" using split1_Some[OF p(2)] by auto
  ultimately have "CHR ''#'' \<notin> set k" using assms(2) by blast
  moreover have "CHR ''#'' \<notin> set (urlenc v)"
    using urlenc_chars[of "CHR ''#''" v] safe_not_special[of "CHR ''#''"] by blast
  ultimately show False using kv(2) by (simp add: enc_pair_def)
qed

lemma urlparse_query_rebuilt:
  assumes "urlparse_query url \<noteq> []" "CHR ''#'' \<notin> set c"
  shows "urlparse_query (takeWhile (\<lambda>c. c \<noteq> CHR ''?'') url @ ''?'' @ c) = c"
proof -
  let ?u = "takeWhile (\<lambda>c. c \<noteq> CHR ''#'') url"
  let ?b = "takeWhile (\<lambda>c. c \<noteq> CHR ''?'') url"
  from assms(1) have "dropWhile (\<lambda>c. c \<noteq> CHR ''?'') ?u \<noteq> []"
    unfolding urlparse_query_def by (rule tail_nonempty)
  then have q: "CHR ''?'' \<in> set ?u"
    using dropWhile_eq_Nil_conv[of "\<lambda>c. c \<noteq> CHR ''?''" ?u] by auto
  have pre: "?b = takeWhile (\<lambda>c. c \<noteq> CHR ''?'') ?u"
  proof -
    have "url = ?u @ dropWhile (\<lambda>c. c \<noteq> CHR ''#'') url" by simp
    then have "?b = takeWhile (\<lambda>c. c \<noteq> CHR ''?'') (?u @ dropWhile (\<lambda>c. c \<noteq> CHR ''#'') url)"
      by simp
    also have "\<dots> = takeWhile (\<lambda>c. c \<noteq> CHR ''?'') ?u"
      using q by (intro takeWhile_append1[of "CHR ''?''"]) auto
    finally show ?thesis .
  qed
  have nh: "CHR ''#'' \<notin> set ?b"
    unfolding pre by (auto dest!: set_takeWhileD)
  have nq: "CHR ''?'' \<notin> set ?b"
    by (auto dest: set_takeWhileD)
  have t: "takeWhile (\<lambda>c. c \<noteq> CHR ''#'') (?b @ ''?'' @ c) = ?b @ ''?'' @ c"
    using nh assms(2) by (intro takeWhile_eq_all_conv[THEN iffD2]) auto
  have "dropWhile (\<lambda>c. c \<noteq> CHR ''?'') (?b @ (''?'' @ c)) =
      dropWhile (\<lambda>c. c \<noteq> CHR ''?'') (''?'' @ c)"
    by (rule dropWhile_append2) (auto dest: set_takeWhileD)
  then have d: "dropWhile (\<lambda>c. c \<noteq> CHR ''?'') (?b @ ''?'' @ c) = ''?'' @ c"
    by simp
  show ?thesis
    unfolding urlparse_query_def t d by simp
qed

lemma map_add_absorb: "m ++ (m ++ n) = m ++ n"
  by (rule ext) (simp add: map_add_def split: option.splits)

lemma map_add_self: "m ++ m = m"
  by (rule ext) (simp add: map_add_def split: option.splits)

lemma canonicalize_query_nonempty:
  assumes "canonicalize q = Inr st" "multi_valued_params st"
  shows "q \<noteq> []"
proof
  assume "q = []"
  with assms(1) have "st = canon_init" by (simp add: canonicalize_empty)
  with assms(2) show False by (simp add: canon_init_def)
qed

section \<open>Claims about the canonical query string\<close>

text \<open>
  Claim C7, as amended. For every query string with no duplicate keys which
  canonicalizes without error and whose values consist only of unreserved
  characters (letters, digits, \<open>_\<close>, \<open>.\<close>, \<open>-\<close>, \<open>~\<close>), canonicalizing the
  canonical string again returns the same string. (The code re-encodes every
  value with \<open>quote_plus\<close>, so a value with any other byte gains a \<open>%\<close>
  escape at each pass.)
\<close>

theorem canonical_string_idempotent:
  assumes "canonical_string q = Inr c" and "no_duplicate_keys q" and "plain_values q"
  shows "canonical_string c = Inr c"
proof -
  from assms(1) obtain st where st: "canonicalize q = Inr st" "c = querystring st"
    by (auto simp: canonical_string_def split: sum.splits)
  from canonicalize_twice[OF st(1)] obtain st2 where
    st2: "canonicalize c = Inr st2"
      "querystring st2 = join_amp (map enc_pair (map reencode (query st)))"
    using st(2) by blast
  have "map reencode (query st) = query st"
    using plain_values_query[OF st(1) assms(3)] by (simp add: map_idI)
  then have "querystring st2 = c"
    using st2(2) st(2) canonicalize_inv[OF st(1)] by (simp add: canon_inv_def)
  then show ?thesis using st2(1) by (simp add: canonical_string_def)
qed

theorem canonical_string_idempotent_witness:
  "canonical_string ''a=1&&b=2'' = Inr ''a=1&b=2''
   \<and> no_duplicate_keys ''a=1&&b=2'' \<and> plain_values ''a=1&&b=2''
   \<and> canonical_string ''a=1&b=2'' = Inr ''a=1&b=2''"
proof -
  have h1: "canonical_string ''a=1&&b=2'' = Inr ''a=1&b=2''" by code_simp
  have h2: "no_duplicate_keys ''a=1&&b=2''" by code_simp
  have h3: "plain_values ''a=1&&b=2''" by code_simp
  from canonical_string_idempotent[OF h1 h2 h3] h1 h2 h3 show ?thesis by simp
qed

text \<open>
  The claim as stated fails at the query \<open>a=1+2\<close>, which has no duplicate key:
  one pass gives \<open>a=1%2B2\<close>, a second pass gives \<open>a=1%252B2\<close>.
\<close>

theorem canonical_string_idempotent_counterexample:
  "no_duplicate_keys ''a=1+2''
   \<and> canonical_string ''a=1+2'' = Inr ''a=1%2B2''
   \<and> canonical_string ''a=1%2B2'' = Inr ''a=1%252B2''
   \<and> ''a=1%252B2'' \<noteq> ''a=1%2B2''"
  by code_simp

text \<open>
  Claim C8, as amended. Let the parameters of a query string be such that the
  non-empty key \<open>k\<close> appears first with value \<open>v1\<close> and again later with value
  \<open>v2\<close>, and let every non-empty parameter have an \<open>=\<close>. Then no error is
  raised, the dict maps \<open>k\<close> to \<open>v1\<close>, the input is flagged as multi-valued,
  and the canonical string has exactly one pair for \<open>k\<close>: the pair
  \<open>k=urlenc v1\<close> (which is \<open>k=v1\<close> when \<open>v1\<close> has only always-safe
  characters); no pair is built from \<open>v2\<close>.
\<close>

theorem first_occurrence_wins:
  assumes "split_on CHR ''&'' q = pre @ [k @ ''='' @ v1] @ mid @ [k @ ''='' @ v2] @ post"
    and "k \<noteq> []" and "CHR ''='' \<notin> set k"
    and "k \<notin> key_of ` set pre"
    and "well_formed (split_on CHR ''&'' q)"
  shows "\<exists>st. canonicalize q = Inr st
     \<and> map_of (query st) k = Some v1
     \<and> multi_valued_params st
     \<and> k @ ''='' @ urlenc v1 \<in> set (split_on CHR ''&'' (querystring st))
     \<and> (\<forall>p \<in> set (split_on CHR ''&'' (querystring st)).
           key_of p = k \<longrightarrow> p = k @ ''='' @ urlenc v1)"
proof -
  from canonicalize_ok[OF assms(5)] obtain st where st: "canonicalize q = Inr st" by blast
  have inv: "canon_inv st" using canonicalize_inv[OF st] .
  have loop: "canon_loop (pre @ (k @ CHR ''='' # v1) # (mid @ [k @ ''='' @ v2] @ post)) canon_init = Inr st"
    using st assms(1) by (simp add: canonicalize_def)
  have mem: "(k, v1) \<in> set (query st)"
    using first_value_kept[OF loop assms(2,3,4)] .
  have m: "map_of (query st) k = Some v1"
    using mem inv by (simp add: canon_inv_def)
  have k1: "keys_of [k @ ''='' @ v1] = [k]" "keys_of [k @ ''='' @ v2] = [k]"
    using keys_of_raw_single[OF assms(2,3)] by simp_all
  have "keys_of (split_on CHR ''&'' q) =
      keys_of pre @ [k] @ keys_of mid @ [k] @ keys_of post"
    unfolding assms(1) keys_of_append k1 ..
  then have "\<not> no_duplicate_keys q"
    by (simp add: no_duplicate_keys_def)
  then have mv: "multi_valued_params st"
    using canonicalize_multi[OF st] by simp
  have ne: "query st \<noteq> []" using mem by auto
  have sp: "split_on CHR ''&'' (querystring st) = map enc_pair (query st)"
    using canonicalize_split[OF st ne] .
  have in1: "k @ ''='' @ urlenc v1 \<in> set (split_on CHR ''&'' (querystring st))"
    unfolding sp using mem by (force simp: enc_pair_def)
  have uniq: "p = k @ ''='' @ urlenc v1"
    if p: "p \<in> set (split_on CHR ''&'' (querystring st))" and kp: "key_of p = k" for p
  proof -
    from p obtain k' v' where kv: "(k', v') \<in> set (query st)" "p = enc_pair (k', v')"
      unfolding sp by auto
    have "CHR ''='' \<notin> set k'" using canonicalize_key_chars[OF st kv(1)] by simp
    then have "key_of p = k'" using kv(2) by (simp add: enc_pair_def key_of_raw)
    with kp have "k' = k" by simp
    with kv(1) m inv have "v' = v1" by (simp add: canon_inv_def)
    with kv(2) \<open>k' = k\<close> show ?thesis by (simp add: enc_pair_def)
  qed
  from st m mv in1 uniq show ?thesis by blast
qed

theorem first_occurrence_wins_witness:
  "\<exists>st. canonicalize ''a=1+2&b=2&a=3'' = Inr st
     \<and> map_of (query st) ''a'' = Some ''1+2''
     \<and> multi_valued_params st
     \<and> ''a=1%2B2'' \<in> set (split_on CHR ''&'' (querystring st))
     \<and> (\<forall>p \<in> set (split_on CHR ''&'' (querystring st)).
           key_of p = ''a'' \<longrightarrow> p = ''a=1%2B2'')"
proof -
  have h1: "split_on CHR ''&'' ''a=1+2&b=2&a=3'' = [] @ [''a'' @ ''='' @ ''1+2''] @ [''b=2''] @ [''a'' @ ''='' @ ''3''] @ []"
    by code_simp
  have h2: "''a'' \<noteq> []" by simp
  have h3: "CHR ''='' \<notin> set ''a''" by simp
  have h4: "''a'' \<notin> key_of ` set []" by simp
  have h5: "well_formed (split_on CHR ''&'' ''a=1+2&b=2&a=3'')" by code_simp
  have e: "urlenc ''1+2'' = ''1%2B2''" by code_simp
  from first_occurrence_wins[OF h1 h2 h3 h4 h5] show ?thesis
    unfolding e by simp
qed

text \<open>
  The claim as stated fails at \<open>a=1+2&a=3\<close>: the canonical string is
  \<open>a=1%2B2\<close>, which does not contain the pair \<open>a=1+2\<close>.
\<close>

theorem first_occurrence_wins_counterexample:
  "canonical_string ''a=1+2&a=3'' = Inr ''a=1%2B2''
   \<and> \<not> contains ''a=1%2B2'' ''a=1+2''"
  by code_simp

text \<open>
  Claim C4, as amended. Let the query of the request's URL canonicalize
  without error, to \<open>c\<close>. If a non-empty key is repeated, the signer is given
  a copy of the request whose URL is the part before the first \<open>?\<close>, then
  \<open>?\<close>, then \<open>c\<close> (so the query of the signed URL is exactly \<open>c\<close>); its
  headers are merged into the original request, and the original request keeps
  its URL unchanged: the \<open>+\<close> to \<open>%20\<close> rewriting is not applied on this
  path. If no key is repeated, the request's URL has \<open>+\<close> rewritten to
  \<open>%20\<close>, and that same URL is the one the signer is given.
\<close>

theorem signing_view:
  assumes "canonical_string (urlparse_query (r_url r)) = Inr c"
  shows "(\<not> no_duplicate_keys (urlparse_query (r_url r)) \<longrightarrow>
            (\<exists>signed_url.
               AWSAuth_call sign r =
                 Inr (r\<lparr>r_headers := r_headers r ++ sign (r\<lparr>r_url := signed_url\<rparr>)\<rparr>)
               \<and> signed_url = takeWhile (\<lambda>c. c \<noteq> CHR ''?'') (r_url r) @ ''?'' @ c
               \<and> urlparse_query signed_url = c))
       \<and> (no_duplicate_keys (urlparse_query (r_url r)) \<longrightarrow>
            (\<exists>sent_url.
               AWSAuth_call sign r =
                 Inr (r\<lparr>r_url := sent_url,
                         r_headers := r_headers r ++ sign (r\<lparr>r_url := sent_url\<rparr>)\<rparr>)
               \<and> sent_url = replace_str ''+'' ''%20'' (r_url r)))"
proof -
  let ?q = "urlparse_query (r_url r)"
  from assms obtain st where st: "canonicalize ?q = Inr st" "c = querystring st"
    by (auto simp: canonical_string_def split: sum.splits)
  have mv: "multi_valued_params st = (\<not> no_duplicate_keys ?q)"
    using canonicalize_multi[OF st(1)] .
  show ?thesis
  proof (cases "no_duplicate_keys ?q")
    case True
    then show ?thesis
      using st(1) mv by (simp add: AWSAuth_call_def auth_call_def)
  next
    case False
    let ?b = "takeWhile (\<lambda>c. c \<noteq> CHR ''?'') (r_url r)"
    from split_on_hd[of "CHR ''?''" "r_url r"] obtain rest where
      sp: "split_on CHR ''?'' (r_url r) = ?b # rest" by blast
    have ne: "?q \<noteq> []"
      using canonicalize_query_nonempty[OF st(1)] mv False by simp
    have nh: "CHR ''#'' \<notin> set c"
      using canonicalize_no_hash[OF st(1) urlparse_query_no_hash] st(2) by simp
    have u: "urlparse_query (?b @ ''?'' @ c) = c"
      using urlparse_query_rebuilt[OF ne nh] .
    have "AWSAuth_call sign r =
        Inr (r\<lparr>r_headers := r_headers r ++ sign (r\<lparr>r_url := ?b @ ''?'' @ c\<rparr>)\<rparr>)"
      using st mv False sp
      by (simp add: AWSAuth_call_def auth_call_def Let_def map_add_self)
    with u False show ?thesis by simp
  qed
qed

theorem signing_view_witness:
  "canonical_string (urlparse_query ''http://h/p?a=1+2&a=3'') = Inr ''a=1%2B2''
   \<and> \<not> no_duplicate_keys (urlparse_query ''http://h/p?a=1+2&a=3'')
   \<and> AWSAuth_call demo_sign (demo_request ''http://h/p?a=1+2&a=3'') =
       Inr ((demo_request ''http://h/p?a=1+2&a=3'')
              \<lparr>r_headers := Map.empty ++ demo_sign (demo_request ''http://h/p?a=1%2B2'')\<rparr>)
   \<and> urlparse_query ''http://h/p?a=1%2B2'' = ''a=1%2B2''
   \<and> canonical_string (urlparse_query ''http://h/p?a=1+2&b=3'') = Inr ''a=1%2B2&b=3''
   \<and> no_duplicate_keys (urlparse_query ''http://h/p?a=1+2&b=3'')
   \<and> AWSAuth_call demo_sign (demo_request ''http://h/p?a=1+2&b=3'') =
       Inr ((demo_request ''http://h/p?a=1%202&b=3'')
              \<lparr>r_headers := Map.empty ++ demo_sign (demo_request ''http://h/p?a=1%202&b=3'')\<rparr>)"
proof -
  have c1: "canonical_string (urlparse_query (r_url (demo_request ''http://h/p?a=1+2&a=3''))) = Inr ''a=1%2B2''"
    by code_simp
  have d1: "\<not> no_duplicate_keys (urlparse_query (r_url (demo_request ''http://h/p?a=1+2&a=3'')))"
    by code_simp
  have c2: "canonical_string (urlparse_query (r_url (demo_request ''http://h/p?a=1+2&b=3''))) = Inr ''a=1%2B2&b=3''"
    by code_simp
  have d2: "no_duplicate_keys (urlparse_query (r_url (demo_request ''http://h/p?a=1+2&b=3'')))"
    by code_simp
  have t1: "takeWhile (\<lambda>c. c \<noteq> CHR ''?'') ''http://h/p?a=1+2&a=3'' = ''http://h/p''"
    by simp
  have t2: "replace_str ''+'' ''%20'' ''http://h/p?a=1+2&b=3'' = ''http://h/p?a=1%202&b=3''"
    by code_simp
  have u: "r_url (demo_request x) = x" for x by (simp add: demo_request_def)
  have a1: "(demo_request x)\<lparr>r_url := y\<rparr> = demo_request y" for x y
    by (simp add: demo_request_def)
  from signing_view[OF c1, of demo_sign] d1
  have w1: "AWSAuth_call demo_sign (demo_request ''http://h/p?a=1+2&a=3'') =
       Inr ((demo_request ''http://h/p?a=1+2&a=3'')
              \<lparr>r_headers := Map.empty ++ demo_sign (demo_request ''http://h/p?a=1%2B2'')\<rparr>)
     \<and> urlparse_query ''http://h/p?a=1%2B2'' = ''a=1%2B2''"
    unfolding u t1 a1 by (simp add: demo_request_def)
  from signing_view[OF c2, of demo_sign] d2
  have w2: "AWSAuth_call demo_sign (demo_request ''http://h/p?a=1+2&b=3'') =
       Inr ((demo_request ''http://h/p?a=1%202&b=3'')
              \<lparr>r_headers := Map.empty ++ demo_sign (demo_request ''http://h/p?a=1%202&b=3'')\<rparr>)"
    unfolding u t2 a1 by (simp add: demo_request_def)
  from c1 d1 c2 d2 w1 w2 show ?thesis unfolding u by simp
qed

text \<open>
  The claim as stated fails at the URL \<open>http://h/p?a=1+2&a=3\<close>: the signer
  sees \<open>http://h/p?a=1%2B2\<close>, and the request leaves with its URL untouched,
  \<open>+\<close> included.
\<close>

theorem signing_view_counterexample:
  "(case AWSAuth_call demo_sign (demo_request ''http://h/p?a=1+2&a=3'') of
      Inl e \<Rightarrow> False
    | Inr r' \<Rightarrow> r_url r' = ''http://h/p?a=1+2&a=3''
               \<and> r_url r' \<noteq> replace_str ''+'' ''%20'' ''http://h/p?a=1+2&a=3''
               \<and> r_headers r' ''Authorization'' = Some ''http://h/p?a=1%2B2'')"
  by code_simp

section \<open>Lemmas about the dispatcher\<close>

lemma getFullPath_JWT: "getFullPath s JWT_PATH = (JWT_PATH, s)"
  by (simp add: getFullPath_def JWT_PATH_def startswith_def)

lemma requests_request_noauth:
  "c_auth c = None \<Longrightarrow> requests_request env hist c = Inl e \<Longrightarrow> e = RequestException"
  by (auto simp: requests_request_def split: option.splits)

lemma do_request_cases:
  "do_request env s c =
     (Inr None, s\<lparr>calls := calls s @ [c],
                  errlog := errlog s @ [''Request '' @ c_method c @ '' '' @ c_reqPath c @ '' failed!'']\<rparr>)
   \<or> (\<exists>e. e \<noteq> RequestException \<and> requests_request env (calls s) c = Inl e
          \<and> do_request env s c = (Inl e, s\<lparr>calls := calls s @ [c]\<rparr>))
   \<or> (\<exists>res. do_request env s c = (Inr (Some res), s\<lparr>calls := calls s @ [c]\<rparr>))"
proof (cases "requests_request env (calls s) c")
  case (Inl e)
  then show ?thesis by (cases e) (simp_all add: do_request_def)
next
  case (Inr r)
  then show ?thesis by (simp add: do_request_def)
qed

lemma do_request_calls: "calls (snd (do_request env s c)) = calls s @ [c]"
  using do_request_cases[of env s c] by (elim disjE exE conjE) simp_all

lemma do_request_token:
  "tokenKey (snd (do_request env s c)) = tokenKey s"
  "tokenKeyExpires (snd (do_request env s c)) = tokenKeyExpires s"
  "tokenKeyNextRefresh (snd (do_request env s c)) = tokenKeyNextRefresh s"
  using do_request_cases[of env s c] by (elim disjE exE conjE; simp)+

lemma do_request_noauth:
  assumes "c_auth c = None"
  shows "\<exists>res. fst (do_request env s c) = Inr res"
  using do_request_cases[of env s c] requests_request_noauth[OF assms, of env "calls s"]
  by (elim disjE exE conjE) auto

lemma invoke_blank:
  "\<not> str_truthy (accessKey s) \<Longrightarrow>
   invokeSignedRequest env now s m eu rp h p d =
     (Inr None, s\<lparr>errlog := errlog s @ [''Blank access key: '' @ m @ '' '' @ rp]\<rparr>)"
  by (subst invokeSignedRequest.simps) simp

lemma invoke_exempt:
  assumes "str_truthy (accessKey s)" "read_attr (tokenKey s) = JStr t" "t \<noteq> []"
  shows "invokeSignedRequest env now s ''GET'' eu JWT_PATH h p d =
     do_request env s
       \<lparr>c_method = ''GET'', c_endpointURL = eu, c_reqPath = JWT_PATH, c_params = p,
        c_headers = h(''Authorization'' \<mapsto> ''Bearer '' @ t), c_data = d, c_auth = None\<rparr>"
  using assms by (subst invokeSignedRequest.simps) (simp add: Let_def)

lemma invoke_bearer:
  assumes "str_truthy (accessKey s)" "truthy (read_attr (tokenKey s))"
    "\<not> (m = ''GET'' \<and> rp = JWT_PATH)"
  shows "invokeSignedRequest env now s m eu rp h p d =
     (case refreshToken env now s of
        (Inl e, s1) \<Rightarrow> (Inl e, s1)
      | (Inr b, s1) \<Rightarrow>
          (case read_attr (tokenKey s1) of
             JStr t \<Rightarrow>
               do_request env s1
                 \<lparr>c_method = m, c_endpointURL = eu, c_reqPath = rp, c_params = p,
                  c_headers = h(''Authorization'' \<mapsto> ''Bearer '' @ t), c_data = d,
                  c_auth = None\<rparr>
           | _ \<Rightarrow> (Inl TypeError, s1)))"
  using assms by (subst invokeSignedRequest.simps) (simp add: Let_def)

lemma invoke_no_token:
  assumes "str_truthy (accessKey s)" "\<not> truthy (read_attr (tokenKey s))"
  shows "invokeSignedRequest env now s m eu rp h p d =
     do_request env s
       \<lparr>c_method = m, c_endpointURL = eu, c_reqPath = rp, c_params = p,
        c_headers = (if str_truthy (secretKey s) then h
                     else h(''Authorization'' \<mapsto> ''Anonymous '' @ the (accessKey s))),
        c_data = d,
        c_auth = (if str_truthy (secretKey s)
                  then Some (the (accessKey s), the (secretKey s),
                             replace_str ''https://'' [] (replace_str ''http://'' [] (getEndpoint s)))
                  else None)\<rparr>"
  using assms by (subst invokeSignedRequest.simps) (simp add: Let_def)

lemma invokeGet_JWT:
  "invokeGet env now s JWT_PATH ps =
     invokeSignedRequest env now s ''GET'' (getEndpoint s) JWT_PATH Map.empty ps None"
  by (subst invokeGet.simps) (simp add: getFullPath_JWT)

lemma refresh_declined:
  "\<not> refresh_due s now \<Longrightarrow> refreshToken env now s = (Inr False, s) \<or> (\<exists>e. refreshToken env now s = (Inl e, s))"
  by (subst (1 2) refreshToken.simps)
     (cases "notexpired s now"; cases "canrefresh s now"; auto simp: refresh_due_def)

lemma refresh_due_unfold:
  assumes "refresh_due s now"
  shows "refreshToken env now s =
     (case invokeGet env now s JWT_PATH [] of
        (Inl e, s1) \<Rightarrow> (Inl e, s1)
      | (Inr res, s1) \<Rightarrow> after_response res s1)"
proof (cases "invokeGet env now s JWT_PATH []")
  case (Pair a b)
  show ?thesis
    using assms Pair
    by (subst refreshToken.simps) (cases a; simp add: refresh_due_def after_response_def)
qed

lemma clearAccessToken_calls: "calls (snd (clearAccessToken s)) = calls s"
  by (simp add: clearAccessToken_def split: option.splits)

lemma clearAccessToken_ok:
  assumes "tokenKey s \<noteq> None" "tokenKeyExpires s \<noteq> None" "tokenKeyNextRefresh s \<noteq> None"
  shows "clearAccessToken s =
     (Inr (), s\<lparr>tokenKey := None, tokenKeyExpires := None, tokenKeyNextRefresh := None\<rparr>)"
  using assms by (auto simp: clearAccessToken_def)

lemma after_response_calls: "calls (snd (after_response res s1)) = calls s1"
proof -
  have c: "calls (snd (case clearAccessToken s2 of
               (Inl e, s3) \<Rightarrow> (Inl e, s3)
             | (Inr _, s3) \<Rightarrow> (Inr False, s3))) = calls s2" for s2
    using clearAccessToken_calls[of s2]
    by (cases "clearAccessToken s2") (auto split: sum.splits)
  show ?thesis
    unfolding after_response_def Let_def
    by (simp add: c split: sum.splits prod.splits)
qed

lemma after_response_failed:
  assumes "refresh_failed res (errlog s1)"
    "tokenKey s1 \<noteq> None" "tokenKeyExpires s1 \<noteq> None" "tokenKeyNextRefresh s1 \<noteq> None"
  shows "fst (after_response res s1) = Inr False \<and> cleared (snd (after_response res s1))
         \<and> calls (snd (after_response res s1)) = calls s1"
proof -
  have c: "(case clearAccessToken (s1\<lparr>errlog := log\<rparr>) of
               (Inl e, s3) \<Rightarrow> (Inl e, s3)
             | (Inr _, s3) \<Rightarrow> (Inr False, s3)) =
      (Inr False, s1\<lparr>errlog := log, tokenKey := None, tokenKeyExpires := None,
                     tokenKeyNextRefresh := None\<rparr>)" for log
    using assms(2-4) by (subst clearAccessToken_ok) auto
  show ?thesis
    using assms(1)
    unfolding after_response_def refresh_failed_def Let_def c
    by (auto simp: cleared_def split: sum.splits prod.splits)
qed

lemma truthy_num: "(truthy x \<and> num_of x = Some e) = (num_of x = Some e \<and> e \<noteq> 0)"
  by (cases x) auto

lemma notexpired_iff:
  "notexpired s now = Inr True \<longleftrightarrow>
     (\<exists>e. num_of (read_attr (tokenKeyExpires s)) = Some e \<and> e \<noteq> 0 \<and> now < e)"
  by (cases "read_attr (tokenKeyExpires s)") (auto simp: notexpired_def py_less_def)

lemma canrefresh_iff:
  "canrefresh s now = Inr True \<longleftrightarrow>
     (\<exists>r. num_of (read_attr (tokenKeyNextRefresh s)) = Some r \<and> r \<noteq> 0
        \<and> (r < now \<or> (\<exists>e. num_of (read_attr (tokenKeyExpires s)) = Some e \<and> e < r)))"
  by (cases "read_attr (tokenKeyNextRefresh s)"; cases "read_attr (tokenKeyExpires s)")
     (auto simp: canrefresh_def py_less_def split: bool.splits)

lemma refresh_due_iff:
  "refresh_due s now \<longleftrightarrow>
     truthy (read_attr (tokenKey s))
     \<and> (\<exists>e r. num_of (read_attr (tokenKeyExpires s)) = Some e \<and> e \<noteq> 0 \<and> now < e
           \<and> num_of (read_attr (tokenKeyNextRefresh s)) = Some r \<and> r \<noteq> 0
           \<and> (r < now \<or> e < r))"
  unfolding refresh_due_def notexpired_iff canrefresh_iff by auto

lemma truthy_attr: "truthy (read_attr a) \<Longrightarrow> a \<noteq> None"
  by (cases a) (auto simp: read_attr_def)

lemma num_attr: "num_of (read_attr a) = Some e \<Longrightarrow> a \<noteq> None"
  by (cases a) (auto simp: read_attr_def)

lemma refresh_due_attrs:
  "refresh_due s now \<Longrightarrow>
   tokenKey s \<noteq> None \<and> tokenKeyExpires s \<noteq> None \<and> tokenKeyNextRefresh s \<noteq> None"
  unfolding refresh_due_iff using truthy_attr num_attr by blast

lemma invoke_exempt_bad_token:
  assumes "str_truthy (accessKey s)" "truthy (read_attr (tokenKey s))"
    "\<forall>t. read_attr (tokenKey s) \<noteq> JStr t"
  shows "invokeSignedRequest env now s ''GET'' eu JWT_PATH h p d = (Inl TypeError, s)"
  using assms
  by (subst invokeSignedRequest.simps) (cases "read_attr (tokenKey s)"; simp add: Let_def)

lemma invoke_bearer':
  assumes "str_truthy (accessKey s)" "truthy (read_attr (tokenKey s))"
    "\<not> (m = ''GET'' \<and> rp = JWT_PATH)"
  shows "invokeSignedRequest env now s m eu rp h p d =
     (case refreshToken env now s of
        (Inl e, s1) \<Rightarrow> (Inl e, s1)
      | (Inr b, s1) \<Rightarrow> bearer_request env s1 m eu rp h p d)"
proof (cases "refreshToken env now s")
  case (Pair a b)
  show ?thesis
    unfolding invoke_bearer[OF assms] Pair bearer_request_def
    by (cases a) simp_all
qed

lemma refresh_due_sends:
  assumes "str_truthy (accessKey s)" "read_attr (tokenKey s) = JStr t" "refresh_due s now"
  shows "\<exists>res s1. do_request env s (refresh_call s t) = (Inr res, s1)
           \<and> refreshToken env now s = after_response res s1
           \<and> calls s1 = calls s @ [refresh_call s t]
           \<and> tokenKey s1 = tokenKey s \<and> tokenKeyExpires s1 = tokenKeyExpires s
           \<and> tokenKeyNextRefresh s1 = tokenKeyNextRefresh s"
proof -
  have t: "t \<noteq> []" using assms(2,3) by (auto simp: refresh_due_def)
  have g: "invokeGet env now s JWT_PATH [] = do_request env s (refresh_call s t)"
    unfolding invokeGet_JWT invoke_exempt[OF assms(1,2) t] refresh_call_def ..
  obtain r1 s1 where d: "do_request env s (refresh_call s t) = (r1, s1)"
    by (cases "do_request env s (refresh_call s t)")
  have "c_auth (refresh_call s t) = None" by (simp add: refresh_call_def)
  from do_request_noauth[OF this, of env s] d obtain res where r1: "r1 = Inr res" by auto
  have "refreshToken env now s = after_response res s1"
    unfolding refresh_due_unfold[OF assms(3)] g d r1 by simp
  moreover have "calls s1 = calls s @ [refresh_call s t]"
    using do_request_calls[of env s "refresh_call s t"] d by simp
  moreover have "tokenKey s1 = tokenKey s \<and> tokenKeyExpires s1 = tokenKeyExpires s
           \<and> tokenKeyNextRefresh s1 = tokenKeyNextRefresh s"
    using do_request_token[of env s "refresh_call s t"] d by simp
  ultimately show ?thesis using d r1 by blast
qed

lemma new_calls_append: "calls s' = calls s @ rest \<Longrightarrow> new_calls s s' = rest"
  by (simp add: new_calls_def)

lemma bearer_request_calls:
  "\<exists>rest. calls (snd (bearer_request env s1 m eu rp h p d)) = calls s1 @ rest
      \<and> (rest = [] \<or> (\<exists>c. rest = [c] \<and> c_method c = m \<and> c_reqPath c = rp))"
  by (cases "read_attr (tokenKey s1)") (simp_all add: bearer_request_def do_request_calls)

lemma refresh_call_is_refresh: "is_refresh (refresh_call s t)"
  by (simp add: is_refresh_def refresh_call_def)

lemma invoke_calls_declined:
  assumes "str_truthy (accessKey s)" "\<not> (m = ''GET'' \<and> rp = JWT_PATH)"
    "\<not> refresh_due s now"
  shows "\<exists>rest. calls (snd (invokeSignedRequest env now s m eu rp h p d)) = calls s @ rest
      \<and> (rest = [] \<or> (\<exists>c. rest = [c] \<and> c_method c = m \<and> c_reqPath c = rp))"
proof (cases "truthy (read_attr (tokenKey s))")
  case False
  show ?thesis
    unfolding invoke_no_token[OF assms(1) False] by (simp add: do_request_calls)
next
  case True
  from refresh_declined[OF assms(3), of env] show ?thesis
  proof (elim disjE exE)
    assume "refreshToken env now s = (Inr False, s)"
    then show ?thesis
      unfolding invoke_bearer'[OF assms(1) True assms(2)]
      using bearer_request_calls[of env s m eu rp h p d] by simp
  next
    fix e assume "refreshToken env now s = (Inl e, s)"
    then show ?thesis
      unfolding invoke_bearer'[OF assms(1) True assms(2)] by simp
  qed
qed

lemma invoke_calls_due:
  assumes "str_truthy (accessKey s)" "\<not> (m = ''GET'' \<and> rp = JWT_PATH)"
    "refresh_due s now" "read_attr (tokenKey s) = JStr t"
  shows "\<exists>rest. calls (snd (invokeSignedRequest env now s m eu rp h p d)) =
        calls s @ refresh_call s t # rest
      \<and> (rest = [] \<or> (\<exists>c. rest = [c] \<and> c_method c = m \<and> c_reqPath c = rp))"
proof -
  have tr: "truthy (read_attr (tokenKey s))" using assms(3) by (simp add: refresh_due_def)
  from refresh_due_sends[OF assms(1,4,3), of env] obtain res s1 where
    r: "refreshToken env now s = after_response res s1"
    and c: "calls s1 = calls s @ [refresh_call s t]" by blast
  obtain b s2 where p: "after_response res s1 = (b, s2)" by (cases "after_response res s1")
  have c2: "calls s2 = calls s @ [refresh_call s t]"
    using after_response_calls[of res s1] p c by simp
  show ?thesis
  proof (cases b)
    case (Inl e)
    then show ?thesis
      unfolding invoke_bearer'[OF assms(1) tr assms(2)] r p using c2 by simp
  next
    case (Inr x)
    then show ?thesis
      unfolding invoke_bearer'[OF assms(1) tr assms(2)] r p
      using c2 bearer_request_calls[of env s2 m eu rp h p d] by auto
  qed
qed

lemma invoke_calls_bad_token:
  assumes "str_truthy (accessKey s)" "\<not> (m = ''GET'' \<and> rp = JWT_PATH)"
    "refresh_due s now" "\<forall>t. read_attr (tokenKey s) \<noteq> JStr t"
  shows "invokeSignedRequest env now s m eu rp h p d = (Inl TypeError, s)"
proof -
  have tr: "truthy (read_attr (tokenKey s))" using assms(3) by (simp add: refresh_due_def)
  have "refreshToken env now s = (Inl TypeError, s)"
    unfolding refresh_due_unfold[OF assms(3)] invokeGet_JWT
      invoke_exempt_bad_token[OF assms(1) tr assms(4)] by simp
  then show ?thesis
    unfolding invoke_bearer'[OF assms(1) tr assms(2)] by simp
qed

lemma clearAccessToken_returns_iff:
  "fst (clearAccessToken s) = Inr () \<longleftrightarrow>
     tokenKey s \<noteq> None \<and> tokenKeyExpires s \<noteq> None \<and> tokenKeyNextRefresh s \<noteq> None"
  by (auto simp: clearAccessToken_def split: option.splits)

lemma failed_refresh_raises:
  assumes "str_truthy (accessKey s)" and "read_attr (tokenKey s) = JStr t"
    and "\<not> (m = ''GET'' \<and> rp = JWT_PATH)"
    and "refresh_due s now"
    and "do_request env s (refresh_call s t) = (Inr res, s1)"
    and "refresh_failed res (errlog s1)"
  shows "\<exists>s'. invokeSignedRequest env now s m eu rp h p d = (Inl TypeError, s')
           \<and> cleared s' \<and> calls s' = calls s @ [refresh_call s t]"
proof -
  from refresh_due_sends[OF assms(1,2,4), of env] assms(5) have
    r: "refreshToken env now s = after_response res s1"
    and c: "calls s1 = calls s @ [refresh_call s t]"
    and k: "tokenKey s1 = tokenKey s" "tokenKeyExpires s1 = tokenKeyExpires s"
      "tokenKeyNextRefresh s1 = tokenKeyNextRefresh s"
    by auto
  have a: "tokenKey s1 \<noteq> None" "tokenKeyExpires s1 \<noteq> None" "tokenKeyNextRefresh s1 \<noteq> None"
    using refresh_due_attrs[OF assms(4)] k by simp_all
  obtain b s2 where p: "after_response res s1 = (b, s2)" by (cases "after_response res s1")
  from after_response_failed[OF assms(6) a] p have
    f: "b = Inr False" "cleared s2" "calls s2 = calls s1" by simp_all
  have tr: "truthy (read_attr (tokenKey s))"
    using assms(4) by (simp add: refresh_due_def)
  have "read_attr (tokenKey s2) = JNull"
    using f(2) by (simp add: cleared_def read_attr_def)
  then have "invokeSignedRequest env now s m eu rp h p d = (Inl TypeError, s2)"
    unfolding invoke_bearer'[OF assms(1) tr assms(3)] r p f(1)
    by (simp add: bearer_request_def)
  with f(2,3) c show ?thesis by simp
qed

lemma refresh_unset:
  assumes "read_attr (tokenKeyExpires s) = JNull" "read_attr (tokenKeyNextRefresh s) = JNull"
  shows "refreshToken env now s = (Inr False, s)"
  using assms
  by (subst refreshToken.simps) (simp add: notexpired_def canrefresh_def)

lemma setAccessToken_undecodable:
  assumes "t \<noteq> []" "undecodable env t"
  shows "setAccessToken env (Some t) s = (Inl IndexError, s)
       \<or> setAccessToken env (Some t) s = (Inl DecodeError, s)"
proof (cases "split_on CHR ''.'' t")
  case Nil
  with assms(1) show ?thesis by (simp add: setAccessToken_def)
next
  case (Cons a rest)
  show ?thesis
  proof (cases rest)
    case Nil
    with Cons assms(1) show ?thesis by (simp add: setAccessToken_def)
  next
    case (Cons seg more)
    with \<open>split_on CHR ''.'' t = a # rest\<close> assms show ?thesis
      by (simp add: setAccessToken_def undecodable_def)
  qed
qed

text \<open>
  The authentication mode of a call on a client with an access key. Without
  a token and without a secret key the call is always made, anonymous and
  unsigned, and returns. Without a token and with a secret key the call is
  always handed to \<open>requests\<close> with the signing hook (the hook can still
  raise). And whenever a call returns a response, the last call made is the
  one asked for, in exactly one mode.
\<close>

lemma anonymous_mode_total:
  assumes "str_truthy (accessKey s)" "\<not> truthy (read_attr (tokenKey s))"
    "\<not> str_truthy (secretKey s)"
  shows "(\<exists>res. fst (invokeSignedRequest env now s m eu rp h p d) = Inr res)
     \<and> calls (snd (invokeSignedRequest env now s m eu rp h p d)) =
         calls s @ [\<lparr>c_method = m, c_endpointURL = eu, c_reqPath = rp, c_params = p,
                     c_headers = h(''Authorization'' \<mapsto> ''Anonymous '' @ the (accessKey s)),
                     c_data = d, c_auth = None\<rparr>]"
  unfolding invoke_no_token[OF assms(1,2)]
  using assms(3) do_request_noauth[of _ env s] by (simp add: do_request_calls)

lemma signed_mode_total:
  assumes "str_truthy (accessKey s)" "\<not> truthy (read_attr (tokenKey s))"
    "str_truthy (secretKey s)"
  shows "calls (snd (invokeSignedRequest env now s m eu rp h p d)) =
         calls s @ [\<lparr>c_method = m, c_endpointURL = eu, c_reqPath = rp, c_params = p,
                     c_headers = h, c_data = d,
                     c_auth = Some (the (accessKey s), the (secretKey s),
                        replace_str ''https://'' [] (replace_str ''http://'' [] (getEndpoint s)))\<rparr>]"
  unfolding invoke_no_token[OF assms(1,2)]
  using assms(3) by (simp add: do_request_calls)

lemma one_auth_mode:
  assumes "str_truthy (accessKey s)"
    and "invokeSignedRequest env now s m eu rp h p d = (Inr res, s')"
  shows "calls s' \<noteq> []
     \<and> c_method (last (calls s')) = m \<and> c_reqPath (last (calls s')) = rp
     \<and> (if truthy (read_attr (tokenKey s))
         then (\<exists>t. read_attr (tokenKey s') = JStr t
                  \<and> c_headers (last (calls s')) ''Authorization'' = Some (''Bearer '' @ t))
              \<and> c_auth (last (calls s')) = None
         else if str_truthy (secretKey s)
         then c_auth (last (calls s')) =
                Some (the (accessKey s), the (secretKey s),
                      replace_str ''https://'' [] (replace_str ''http://'' [] (getEndpoint s)))
              \<and> c_headers (last (calls s')) = h
         else c_headers (last (calls s')) ''Authorization'' =
                Some (''Anonymous '' @ the (accessKey s))
              \<and> c_auth (last (calls s')) = None)"
proof (cases "truthy (read_attr (tokenKey s))")
  case False
  let ?c = "\<lparr>c_method = m, c_endpointURL = eu, c_reqPath = rp, c_params = p,
        c_headers = (if str_truthy (secretKey s) then h
                     else h(''Authorization'' \<mapsto> ''Anonymous '' @ the (accessKey s))),
        c_data = d,
        c_auth = (if str_truthy (secretKey s)
                  then Some (the (accessKey s), the (secretKey s),
                             replace_str ''https://'' [] (replace_str ''http://'' [] (getEndpoint s)))
                  else None)\<rparr>"
  have "calls s' = calls s @ [?c]"
    using assms(2) do_request_calls[of env s ?c]
    unfolding invoke_no_token[OF assms(1) False] by simp
  then show ?thesis using False by simp
next
  case True
  have br: "\<exists>s1. bearer_request env s1 m eu rp h p d = (Inr res, s')"
  proof (cases "m = ''GET'' \<and> rp = JWT_PATH")
    case ex: True
    show ?thesis
    proof (cases "\<exists>t. read_attr (tokenKey s) = JStr t")
      case False
      then show ?thesis
        using assms(2) ex invoke_exempt_bad_token[OF assms(1) True, of env now eu h p d] by simp
    next
      case True
      then obtain t where t: "read_attr (tokenKey s) = JStr t" by blast
      have tn: "t \<noteq> []" using \<open>truthy (read_attr (tokenKey s))\<close> t by simp
      have "bearer_request env s m eu rp h p d = (Inr res, s')"
        using assms(2) ex t invoke_exempt[OF assms(1) t tn, of env now eu h p d]
        by (simp add: bearer_request_def)
      then show ?thesis by blast
    qed
  next
    case False
    obtain b s1 where r: "refreshToken env now s = (b, s1)" by (cases "refreshToken env now s")
    show ?thesis
      using assms(2) unfolding invoke_bearer'[OF assms(1) True False] r
      by (cases b) auto
  qed
  then obtain s1 where s1: "bearer_request env s1 m eu rp h p d = (Inr res, s')" by blast
  then obtain t where t: "read_attr (tokenKey s1) = JStr t"
    by (cases "read_attr (tokenKey s1)") (simp_all add: bearer_request_def)
  let ?c = "\<lparr>c_method = m, c_endpointURL = eu, c_reqPath = rp, c_params = p,
             c_headers = h(''Authorization'' \<mapsto> ''Bearer '' @ t), c_data = d,
             c_auth = None\<rparr>"
  have dr: "do_request env s1 ?c = (Inr res, s')"
    using s1 t by (simp add: bearer_request_def)
  have "calls s' = calls s1 @ [?c]" "tokenKey s' = tokenKey s1"
    using do_request_calls[of env s1 ?c] do_request_token(1)[of env s1 ?c] dr by simp_all
  then show ?thesis using True t by simp
qed

lemma one_auth_mode_example:
  "str_truthy (accessKey (signed_in ''t'' 100 50))
   \<and> fst (invokeSignedRequest refreshed_env 60 (signed_in ''t'' 100 50)
          ''GET'' ''https://paraio.com'' ''/v1/users'' Map.empty [] None)
       = Inr (Some (resp 200 (Some (JObj []))))
   \<and> c_headers (last (calls (snd (invokeSignedRequest refreshed_env 60 (signed_in ''t'' 100 50)
          ''GET'' ''https://paraio.com'' ''/v1/users'' Map.empty [] None)))) ''Authorization''
       = Some ''Bearer t2''
   \<and> c_auth (last (calls (snd (invokeSignedRequest refreshed_env 60 (signed_in ''t'' 100 50)
          ''GET'' ''https://paraio.com'' ''/v1/users'' Map.empty [] None)))) = None
   \<and> c_reqPath (last (calls (snd (invokeSignedRequest refreshed_env 60 (signed_in ''t'' 100 50)
          ''GET'' ''https://paraio.com'' ''/v1/users'' Map.empty [] None)))) = ''/v1/users''"
proof -
  let ?R = "invokeSignedRequest refreshed_env 60 (signed_in ''t'' 100 50)
          ''GET'' ''https://paraio.com'' ''/v1/users'' Map.empty [] None"
  have h1: "str_truthy (accessKey (signed_in ''t'' 100 50))"
    by (simp add: signed_in_def init_client_def str_truthy_def)
  have f: "fst ?R = Inr (Some (resp 200 (Some (JObj []))))" by code_simp
  have h2: "?R = (Inr (Some (resp 200 (Some (JObj [])))), snd ?R)"
    using f by (metis prod.collapse)
  have tk: "read_attr (tokenKey (snd ?R)) = JStr ''t2''" by code_simp
  have tr: "truthy (read_attr (tokenKey (signed_in ''t'' 100 50)))"
    by (simp add: signed_in_def read_attr_def)
  from one_auth_mode[OF h1 h2] tr tk h1 f show ?thesis by simp
qed

section \<open>Claims about the dispatcher and the token state\<close>

text \<open>
  Claim C1. The claim says that after a failed refresh the token state is
  cleared and the originating call is still sent. The code clears the token
  state and then raises TypeError at \<open>"Bearer " + self.__tokenKey\<close>, the
  token now being \<open>None\<close>: the originating call never reaches the transport
  (lemma \<open>failed_refresh_raises\<close> for every such call). Here: token \<open>t\<close>,
  expiry 100, next refresh 50, clock 60, and a refresh endpoint answering 401;
  the only call made is the refresh. When the endpoint answers 200 with a body
  that has no \<open>user\<close> field, the subscript raises KeyError and the token is
  not cleared either.
\<close>

theorem failed_refresh_at_input:
  "fst (invokeSignedRequest (demo_env (resp 401 None)) 60 (signed_in ''t'' 100 50)
          ''GET'' ''https://paraio.com'' ''/v1/users'' Map.empty [] None) = Inl TypeError
   \<and> cleared (snd (invokeSignedRequest (demo_env (resp 401 None)) 60 (signed_in ''t'' 100 50)
          ''GET'' ''https://paraio.com'' ''/v1/users'' Map.empty [] None))
   \<and> map c_reqPath (calls (snd (invokeSignedRequest (demo_env (resp 401 None)) 60
          (signed_in ''t'' 100 50)
          ''GET'' ''https://paraio.com'' ''/v1/users'' Map.empty [] None))) = [''/jwt_auth'']
   \<and> fst (invokeSignedRequest (demo_env (resp 200 (Some (JObj [(''error'', JStr ''x'')])))) 60
          (signed_in ''t'' 100 50)
          ''GET'' ''https://paraio.com'' ''/v1/users'' Map.empty [] None) = Inl (KeyError ''user'')
   \<and> tokenKey (snd (invokeSignedRequest (demo_env (resp 200 (Some (JObj [(''error'', JStr ''x'')])))) 60
          (signed_in ''t'' 100 50)
          ''GET'' ''https://paraio.com'' ''/v1/users'' Map.empty [] None)) = Some (JStr ''t'')"
  by code_simp

text \<open>
  Claim C2, as amended. For a dispatched call other than \<open>GET /jwt_auth\<close> on
  a client with an access key, the refresh request is made if and only if the
  token is a non-empty string, the expiry is a non-zero number with
  \<open>now < expiry\<close>, and the next-refresh time is a non-zero number with
  \<open>nextRefresh < now\<close> (strictly) or \<open>nextRefresh > expiry\<close>. At the instant
  \<open>now = nextRefresh\<close> (with \<open>nextRefresh \<le> expiry\<close>) no refresh is made.
\<close>

theorem refresh_attempted_iff:
  assumes "str_truthy (accessKey s)" and "\<not> (m = ''GET'' \<and> rp = JWT_PATH)"
  shows "list_ex is_refresh (new_calls s (snd (invokeSignedRequest env now s m eu rp h p d)))
     \<longleftrightarrow>
       (\<exists>t. read_attr (tokenKey s) = JStr t \<and> t \<noteq> [])
       \<and> (\<exists>e r. num_of (read_attr (tokenKeyExpires s)) = Some e \<and> e \<noteq> 0 \<and> now < e
              \<and> num_of (read_attr (tokenKeyNextRefresh s)) = Some r \<and> r \<noteq> 0
              \<and> (r < now \<or> e < r))"
proof (cases "refresh_due s now")
  case False
  from invoke_calls_declined[OF assms False, of env eu h p d] obtain rest where
    r: "calls (snd (invokeSignedRequest env now s m eu rp h p d)) = calls s @ rest"
      "rest = [] \<or> (\<exists>c. rest = [c] \<and> c_method c = m \<and> c_reqPath c = rp)" by blast
  have "\<not> list_ex is_refresh rest"
    using r(2) assms(2) by (auto simp: is_refresh_def)
  then have "\<not> list_ex is_refresh (new_calls s (snd (invokeSignedRequest env now s m eu rp h p d)))"
    using new_calls_append[OF r(1)] by simp
  moreover have "\<not> ((\<exists>t. read_attr (tokenKey s) = JStr t \<and> t \<noteq> [])
       \<and> (\<exists>e r. num_of (read_attr (tokenKeyExpires s)) = Some e \<and> e \<noteq> 0 \<and> now < e
              \<and> num_of (read_attr (tokenKeyNextRefresh s)) = Some r \<and> r \<noteq> 0
              \<and> (r < now \<or> e < r)))"
    using False unfolding refresh_due_iff by auto
  ultimately show ?thesis by blast
next
  case True
  show ?thesis
  proof (cases "\<exists>t. read_attr (tokenKey s) = JStr t")
    case False
    then have nt: "\<forall>t. read_attr (tokenKey s) \<noteq> JStr t" by simp
    have "new_calls s (snd (invokeSignedRequest env now s m eu rp h p d)) = []"
      unfolding invoke_calls_bad_token[OF assms True nt] by (simp add: new_calls_def)
    then show ?thesis using False by auto
  next
    case t: True
    then obtain t where t: "read_attr (tokenKey s) = JStr t" by blast
    from invoke_calls_due[OF assms True t, of env eu h p d] obtain rest where
      r: "calls (snd (invokeSignedRequest env now s m eu rp h p d)) =
        calls s @ refresh_call s t # rest" by blast
    have "list_ex is_refresh (new_calls s (snd (invokeSignedRequest env now s m eu rp h p d)))"
      using new_calls_append[OF r] refresh_call_is_refresh by simp
    moreover have "(\<exists>t. read_attr (tokenKey s) = JStr t \<and> t \<noteq> [])
       \<and> (\<exists>e r. num_of (read_attr (tokenKeyExpires s)) = Some e \<and> e \<noteq> 0 \<and> now < e
              \<and> num_of (read_attr (tokenKeyNextRefresh s)) = Some r \<and> r \<noteq> 0
              \<and> (r < now \<or> e < r))"
      using True t unfolding refresh_due_iff by auto
    ultimately show ?thesis by blast
  qed
qed

theorem refresh_attempted_iff_witness:
  "str_truthy (accessKey (signed_in ''t'' 100 50))
   \<and> \<not> (''GET'' = ''GET'' \<and> ''/v1/users'' = JWT_PATH)
   \<and> list_ex is_refresh
        (new_calls (signed_in ''t'' 100 50)
           (snd (invokeSignedRequest (demo_env (resp 401 None)) 60 (signed_in ''t'' 100 50)
                   ''GET'' ''https://paraio.com'' ''/v1/users'' Map.empty [] None)))
   \<and> \<not> list_ex is_refresh
        (new_calls (signed_in ''t'' 100 50)
           (snd (invokeSignedRequest (demo_env (resp 401 None)) 50 (signed_in ''t'' 100 50)
                   ''GET'' ''https://paraio.com'' ''/v1/users'' Map.empty [] None)))"
proof -
  have h1: "str_truthy (accessKey (signed_in ''t'' 100 50))"
    by (simp add: signed_in_def init_client_def str_truthy_def)
  have h2: "\<not> (''GET'' = ''GET'' \<and> ''/v1/users'' = JWT_PATH)"
    by (simp add: JWT_PATH_def)
  have a: "read_attr (tokenKey (signed_in ''t'' 100 50)) = JStr ''t''"
    "read_attr (tokenKeyExpires (signed_in ''t'' 100 50)) = JInt 100"
    "read_attr (tokenKeyNextRefresh (signed_in ''t'' 100 50)) = JInt 50"
    by (simp_all add: signed_in_def read_attr_def)
  from refresh_attempted_iff[OF h1 h2, of "demo_env (resp 401 None)" 60 "''https://paraio.com''" Map.empty "[]" None]
  have w1: "list_ex is_refresh
        (new_calls (signed_in ''t'' 100 50)
           (snd (invokeSignedRequest (demo_env (resp 401 None)) 60 (signed_in ''t'' 100 50)
                   ''GET'' ''https://paraio.com'' ''/v1/users'' Map.empty [] None)))"
    unfolding a by simp
  from refresh_attempted_iff[OF h1 h2, of "demo_env (resp 401 None)" 50 "''https://paraio.com''" Map.empty "[]" None]
  have w2: "\<not> list_ex is_refresh
        (new_calls (signed_in ''t'' 100 50)
           (snd (invokeSignedRequest (demo_env (resp 401 None)) 50 (signed_in ''t'' 100 50)
                   ''GET'' ''https://paraio.com'' ''/v1/users'' Map.empty [] None)))"
    unfolding a by simp
  from h1 h2 w1 w2 show ?thesis by blast
qed

text \<open>
  The claim as stated fails at \<open>now = nextRefresh = 50\<close> (expiry 100): the
  specification's predicate holds, and the dispatch makes the originating call
  only.
\<close>

theorem refresh_attempted_iff_counterexample:
  "spec_isRefreshDue (signed_in ''t'' 100 50) 50
   \<and> \<not> list_ex is_refresh
        (new_calls (signed_in ''t'' 100 50)
           (snd (invokeSignedRequest (demo_env (resp 401 None)) 50 (signed_in ''t'' 100 50)
                   ''GET'' ''https://paraio.com'' ''/v1/users'' Map.empty [] None)))
   \<and> map c_reqPath (calls (snd (invokeSignedRequest (demo_env (resp 401 None)) 50
                   (signed_in ''t'' 100 50)
                   ''GET'' ''https://paraio.com'' ''/v1/users'' Map.empty [] None)))
       = [''/v1/users'']"
  by code_simp

text \<open>
  Claim C3. The claim says that every dispatched call with a non-empty
  access key carries exactly one authentication mode, and the bearer header
  when a token is set. The code selects the mode as claimed (lemmas
  \<open>one_auth_mode\<close>, \<open>anonymous_mode_total\<close>, \<open>signed_mode_total\<close>), but a call
  with a token set whose refresh fails raises TypeError before the request is
  made: with token \<open>t\<close>, expiry 100, next refresh 50, clock 60 and a refresh
  endpoint answering 401, the only call made is the refresh, and no request
  for \<open>/v1/users\<close> carries any header. In signed mode a query parameter
  without \<open>=\<close> makes the signing hook raise IndexError, and the request is
  not sent either.
\<close>

theorem auth_mode_at_failed_refresh:
  "str_truthy (accessKey (signed_in ''t'' 100 50))
   \<and> truthy (read_attr (tokenKey (signed_in ''t'' 100 50)))
   \<and> fst (invokeSignedRequest (demo_env (resp 401 None)) 60 (signed_in ''t'' 100 50)
          ''GET'' ''https://paraio.com'' ''/v1/users'' Map.empty [] None) = Inl TypeError
   \<and> list_all (\<lambda>c. c_reqPath c \<noteq> ''/v1/users'')
        (calls (snd (invokeSignedRequest (demo_env (resp 401 None)) 60 (signed_in ''t'' 100 50)
          ''GET'' ''https://paraio.com'' ''/v1/users'' Map.empty [] None)))
   \<and> length (calls (snd (invokeSignedRequest (demo_env (resp 401 None)) 60
          (signed_in ''t'' 100 50)
          ''GET'' ''https://paraio.com'' ''/v1/users'' Map.empty [] None))) = 1
   \<and> str_truthy (secretKey (init_client (Some ''app'') (Some ''secret'')))
   \<and> fst (invokeSignedRequest (demo_env (resp 401 None)) 60
          (init_client (Some ''app'') (Some ''secret''))
          ''GET'' ''https://paraio.com'' ''/v1/users?flag'' Map.empty [] None) = Inl IndexError"
  by code_simp

text \<open>
  Claim C5. With an absent or empty access key the call returns \<open>None\<close>
  at once, having logged the error \<open>Blank access key\<close>; no call of the
  transport is made and nothing else of the client changes, whatever the
  token and the secret key.
\<close>

theorem blank_access_key:
  assumes "\<not> str_truthy (accessKey s)"
  shows "invokeSignedRequest env now s m eu rp h p d =
           (Inr None, s\<lparr>errlog := errlog s @ [''Blank access key: '' @ m @ '' '' @ rp]\<rparr>)
         \<and> calls (snd (invokeSignedRequest env now s m eu rp h p d)) = calls s"
  using invoke_blank[OF assms] by simp

theorem blank_access_key_witness:
  "\<not> str_truthy (accessKey ((signed_in ''t'' 100 50)\<lparr>accessKey := Some []\<rparr>))
   \<and> invokeSignedRequest (demo_env (resp 401 None)) 60
        ((signed_in ''t'' 100 50)\<lparr>accessKey := Some []\<rparr>)
        ''GET'' ''https://paraio.com'' ''/v1/users'' Map.empty [] None =
       (Inr None, (signed_in ''t'' 100 50)
          \<lparr>accessKey := Some [], errlog := [''Blank access key: GET /v1/users'']\<rparr>)
   \<and> calls (snd (invokeSignedRequest (demo_env (resp 401 None)) 60
        ((signed_in ''t'' 100 50)\<lparr>accessKey := Some []\<rparr>)
        ''GET'' ''https://paraio.com'' ''/v1/users'' Map.empty [] None)) = []"
proof -
  have h: "\<not> str_truthy (accessKey ((signed_in ''t'' 100 50)\<lparr>accessKey := Some []\<rparr>))"
    by (simp add: str_truthy_def)
  from blank_access_key[OF h, of "demo_env (resp 401 None)" 60 "''GET''" "''https://paraio.com''"
      "''/v1/users''" Map.empty "[]" None] h
  show ?thesis by (simp add: signed_in_def init_client_def)
qed

text \<open>
  Claim C10. The claim says that \<open>clearToken()\<close> returns normally in every
  state. The code deletes three instance attributes: on a client that never
  held a token it raises AttributeError, and so does a second clear after a
  first (lemma \<open>clearAccessToken_returns_iff\<close>: it returns exactly when the
  instance holds all three attributes).
\<close>

theorem clear_without_token_raises:
  "clearAccessToken (init_client (Some ''app'') (Some ''secret'')) =
     (Inl AttributeError, init_client (Some ''app'') (Some ''secret''))
   \<and> fst (signOut (init_client (Some ''app'') (Some ''secret''))) = Inl AttributeError
   \<and> fst (clearAccessToken (signed_in ''t'' 100 50)) = Inr ()
   \<and> fst (clearAccessToken (snd (clearAccessToken (signed_in ''t'' 100 50)))) = Inl AttributeError"
  by (simp add: clearAccessToken_def signOut_def init_client_def signed_in_def)

text \<open>
  Claim C9. On a client with an access key and a token set, a call other
  than \<open>GET /jwt_auth\<close> runs \<open>refreshToken\<close> first and makes the call itself
  on the state \<open>refreshToken\<close> leaves: every call of the dispatch follows the
  calls of the refresh, the refresh request (when it is due) is the first of
  them, and a refresh that declines leaves the client as it was. A \<open>GET\<close> of
  \<open>/jwt_auth\<close> never triggers a refresh: the dispatch makes exactly one call,
  the call itself, and leaves the three token fields as they were, even when
  a refresh is due.
\<close>

theorem refresh_precedes_call:
  assumes "str_truthy (accessKey s)" and "read_attr (tokenKey s) = JStr t" and "t \<noteq> []"
  shows "(\<not> (m = ''GET'' \<and> rp = JWT_PATH) \<longrightarrow>
            invokeSignedRequest env now s m eu rp h p d =
              (case refreshToken env now s of
                 (Inl e, s1) \<Rightarrow> (Inl e, s1)
               | (Inr b, s1) \<Rightarrow> bearer_request env s1 m eu rp h p d)
            \<and> (\<exists>rest. calls (snd (invokeSignedRequest env now s m eu rp h p d)) =
                         calls (snd (refreshToken env now s)) @ rest
                  \<and> (rest = [] \<or> (\<exists>c. rest = [c] \<and> c_method c = m \<and> c_reqPath c = rp)))
            \<and> (if refresh_due s now
                then calls (snd (refreshToken env now s)) = calls s @ [refresh_call s t]
                else snd (refreshToken env now s) = s))
       \<and> invokeSignedRequest env now s ''GET'' eu JWT_PATH h p d =
            do_request env s
              \<lparr>c_method = ''GET'', c_endpointURL = eu, c_reqPath = JWT_PATH, c_params = p,
               c_headers = h(''Authorization'' \<mapsto> ''Bearer '' @ t), c_data = d, c_auth = None\<rparr>
       \<and> new_calls s (snd (invokeSignedRequest env now s ''GET'' eu JWT_PATH h p d)) =
            [\<lparr>c_method = ''GET'', c_endpointURL = eu, c_reqPath = JWT_PATH, c_params = p,
              c_headers = h(''Authorization'' \<mapsto> ''Bearer '' @ t), c_data = d, c_auth = None\<rparr>]
       \<and> tokenKey (snd (invokeSignedRequest env now s ''GET'' eu JWT_PATH h p d)) = tokenKey s
       \<and> tokenKeyExpires (snd (invokeSignedRequest env now s ''GET'' eu JWT_PATH h p d))
            = tokenKeyExpires s
       \<and> tokenKeyNextRefresh (snd (invokeSignedRequest env now s ''GET'' eu JWT_PATH h p d))
            = tokenKeyNextRefresh s"
proof -
  have tr: "truthy (read_attr (tokenKey s))" using assms(2,3) by simp
  have ex: "invokeSignedRequest env now s ''GET'' eu JWT_PATH h p d =
            do_request env s
              \<lparr>c_method = ''GET'', c_endpointURL = eu, c_reqPath = JWT_PATH, c_params = p,
               c_headers = h(''Authorization'' \<mapsto> ''Bearer '' @ t), c_data = d, c_auth = None\<rparr>"
    using invoke_exempt[OF assms] .
  have part2: "new_calls s (snd (invokeSignedRequest env now s ''GET'' eu JWT_PATH h p d)) =
            [\<lparr>c_method = ''GET'', c_endpointURL = eu, c_reqPath = JWT_PATH, c_params = p,
              c_headers = h(''Authorization'' \<mapsto> ''Bearer '' @ t), c_data = d, c_auth = None\<rparr>]
       \<and> tokenKey (snd (invokeSignedRequest env now s ''GET'' eu JWT_PATH h p d)) = tokenKey s
       \<and> tokenKeyExpires (snd (invokeSignedRequest env now s ''GET'' eu JWT_PATH h p d))
            = tokenKeyExpires s
       \<and> tokenKeyNextRefresh (snd (invokeSignedRequest env now s ''GET'' eu JWT_PATH h p d))
            = tokenKeyNextRefresh s"
    unfolding ex by (simp add: new_calls_def do_request_calls do_request_token)
  have part1: "invokeSignedRequest env now s m eu rp h p d =
              (case refreshToken env now s of
                 (Inl e, s1) \<Rightarrow> (Inl e, s1)
               | (Inr b, s1) \<Rightarrow> bearer_request env s1 m eu rp h p d)
            \<and> (\<exists>rest. calls (snd (invokeSignedRequest env now s m eu rp h p d)) =
                         calls (snd (refreshToken env now s)) @ rest
                  \<and> (rest = [] \<or> (\<exists>c. rest = [c] \<and> c_method c = m \<and> c_reqPath c = rp)))
            \<and> (if refresh_due s now
                then calls (snd (refreshToken env now s)) = calls s @ [refresh_call s t]
                else snd (refreshToken env now s) = s)"
    if ne: "\<not> (m = ''GET'' \<and> rp = JWT_PATH)"
  proof -
    note ib = invoke_bearer'[OF assms(1) tr ne, of env now eu h p d]
    obtain b s1 where r: "refreshToken env now s = (b, s1)" by (cases "refreshToken env now s")
    have rest: "\<exists>rest. calls (snd (invokeSignedRequest env now s m eu rp h p d)) =
                         calls (snd (refreshToken env now s)) @ rest
                  \<and> (rest = [] \<or> (\<exists>c. rest = [c] \<and> c_method c = m \<and> c_reqPath c = rp))"
    proof (cases b)
      case (Inl e)
      then show ?thesis unfolding ib r by simp
    next
      case (Inr x)
      then show ?thesis unfolding ib r
        using bearer_request_calls[of env s1 m eu rp h p d] by simp
    qed
    have due: "calls (snd (refreshToken env now s)) = calls s @ [refresh_call s t]"
      if "refresh_due s now"
    proof -
      from refresh_due_sends[OF assms(1,2) that, of env] obtain res s1 where
        "refreshToken env now s = after_response res s1"
        "calls s1 = calls s @ [refresh_call s t]" by blast
      then show ?thesis using after_response_calls[of res s1] by simp
    qed
    have ndue: "snd (refreshToken env now s) = s" if "\<not> refresh_due s now"
      using refresh_declined[OF that, of env] by auto
    from ib rest due ndue show ?thesis by simp
  qed
  from part1 ex part2 show ?thesis by blast
qed

theorem refresh_precedes_call_witness:
  "str_truthy (accessKey (signed_in ''t'' 100 50))
   \<and> read_attr (tokenKey (signed_in ''t'' 100 50)) = JStr ''t'' \<and> ''t'' \<noteq> []
   \<and> map c_reqPath (calls (snd (refreshToken refreshed_env 60 (signed_in ''t'' 100 50))))
        = [''/jwt_auth'']
   \<and> (\<exists>rest. map c_reqPath (calls (snd (invokeSignedRequest refreshed_env 60
                 (signed_in ''t'' 100 50) ''GET'' ''https://paraio.com'' ''/v1/users''
                 Map.empty [] None))) = ''/jwt_auth'' # rest)
   \<and> map c_reqPath (new_calls (signed_in ''t'' 100 50)
         (snd (invokeSignedRequest refreshed_env 60 (signed_in ''t'' 100 50)
                 ''GET'' ''https://paraio.com'' JWT_PATH Map.empty [] None))) = [''/jwt_auth'']
   \<and> tokenKey (snd (invokeSignedRequest refreshed_env 60 (signed_in ''t'' 100 50)
                 ''GET'' ''https://paraio.com'' JWT_PATH Map.empty [] None)) = Some (JStr ''t'')"
proof -
  let ?S = "signed_in ''t'' 100 50"
  have h1: "str_truthy (accessKey ?S)"
    by (simp add: signed_in_def init_client_def str_truthy_def)
  have h2: "read_attr (tokenKey ?S) = JStr ''t''"
    by (simp add: signed_in_def read_attr_def)
  have h3: "''t'' \<noteq> []" by simp
  have ne: "\<not> (''GET'' = ''GET'' \<and> ''/v1/users'' = JWT_PATH)" by (simp add: JWT_PATH_def)
  have due: "refresh_due ?S 60" by code_simp
  have c0: "calls ?S = []" by (simp add: signed_in_def init_client_def)
  have rc: "c_reqPath (refresh_call ?S ''t'') = ''/jwt_auth''"
    by (simp add: refresh_call_def JWT_PATH_def)
  have tk: "tokenKey ?S = Some (JStr ''t'')" by (simp add: signed_in_def)
  note T = refresh_precedes_call[OF h1 h2 h3, of "''GET''" "''/v1/users''" refreshed_env 60
      "''https://paraio.com''" Map.empty "[]" None]
  from T ne due have a: "calls (snd (refreshToken refreshed_env 60 ?S)) = [refresh_call ?S ''t'']"
    by (simp add: c0)
  from T ne obtain rest where
    b: "calls (snd (invokeSignedRequest refreshed_env 60 ?S ''GET'' ''https://paraio.com''
          ''/v1/users'' Map.empty [] None)) = calls (snd (refreshToken refreshed_env 60 ?S)) @ rest"
    by blast
  from T have c: "new_calls ?S (snd (invokeSignedRequest refreshed_env 60 ?S
                 ''GET'' ''https://paraio.com'' JWT_PATH Map.empty [] None)) =
            [\<lparr>c_method = ''GET'', c_endpointURL = ''https://paraio.com'', c_reqPath = JWT_PATH,
              c_params = [], c_headers = Map.empty(''Authorization'' \<mapsto> ''Bearer '' @ ''t''),
              c_data = None, c_auth = None\<rparr>]"
    and d: "tokenKey (snd (invokeSignedRequest refreshed_env 60 ?S
                 ''GET'' ''https://paraio.com'' JWT_PATH Map.empty [] None)) = tokenKey ?S"
    by blast+
  show ?thesis
    using h1 h2 a b c d rc tk by (simp add: JWT_PATH_def)
qed

text \<open>
  Claim C6, as amended. For every non-empty token string whose payload
  cannot be decoded, \<open>setAccessToken\<close> raises (IndexError or the decoder's
  error) and leaves the client as it was: the token is not stored. A client
  that holds a token with expiry and next-refresh time unset never attempts a
  refresh, and every call sends \<open>Authorization: Bearer <token>\<close> as-is.
\<close>

theorem undecodable_token:
  assumes "t \<noteq> []" and "undecodable env t"
  shows "(\<exists>e. setAccessToken env (Some t) s = (Inl e, s))
     \<and> (str_truthy (accessKey s2) \<and> read_attr (tokenKey s2) = JStr t
          \<and> read_attr (tokenKeyExpires s2) = JNull
          \<and> read_attr (tokenKeyNextRefresh s2) = JNull
        \<longrightarrow> \<not> refresh_due s2 now
            \<and> invokeSignedRequest env now s2 m eu rp h p d =
                do_request env s2
                  \<lparr>c_method = m, c_endpointURL = eu, c_reqPath = rp, c_params = p,
                   c_headers = h(''Authorization'' \<mapsto> ''Bearer '' @ t), c_data = d,
                   c_auth = None\<rparr>)"
proof -
  have a: "\<exists>e. setAccessToken env (Some t) s = (Inl e, s)"
    using setAccessToken_undecodable[OF assms, of s] by blast
  have b: "\<not> refresh_due s2 now
            \<and> invokeSignedRequest env now s2 m eu rp h p d =
                do_request env s2
                  \<lparr>c_method = m, c_endpointURL = eu, c_reqPath = rp, c_params = p,
                   c_headers = h(''Authorization'' \<mapsto> ''Bearer '' @ t), c_data = d,
                   c_auth = None\<rparr>"
    if ak: "str_truthy (accessKey s2)" and tk: "read_attr (tokenKey s2) = JStr t"
      and ex: "read_attr (tokenKeyExpires s2) = JNull"
      and nr: "read_attr (tokenKeyNextRefresh s2) = JNull"
  proof -
    have tr: "truthy (read_attr (tokenKey s2))" using tk assms(1) by simp
    have nd: "\<not> refresh_due s2 now"
      using ex by (simp add: refresh_due_def notexpired_def)
    show ?thesis
    proof (cases "m = ''GET'' \<and> rp = JWT_PATH")
      case True
      then show ?thesis
        using nd invoke_exempt[OF ak tk assms(1), of env now eu h p d] by simp
    next
      case False
      show ?thesis
        unfolding invoke_bearer'[OF ak tr False] refresh_unset[OF ex nr]
        using nd tk by (simp add: bearer_request_def)
    qed
  qed
  from a b show ?thesis by blast
qed

theorem undecodable_token_witness:
  "''abc'' \<noteq> [] \<and> undecodable refreshed_env ''abc''
   \<and> (\<exists>e. setAccessToken refreshed_env (Some ''abc'') (init_client (Some ''app'') (Some ''secret''))
            = (Inl e, init_client (Some ''app'') (Some ''secret'')))
   \<and> \<not> refresh_due unparsed_token 60
   \<and> invokeSignedRequest refreshed_env 60 unparsed_token
        ''GET'' ''https://paraio.com'' ''/v1/users'' Map.empty [] None =
      do_request refreshed_env unparsed_token
        \<lparr>c_method = ''GET'', c_endpointURL = ''https://paraio.com'', c_reqPath = ''/v1/users'',
         c_params = [], c_headers = Map.empty(''Authorization'' \<mapsto> ''Bearer '' @ ''abc''),
         c_data = None, c_auth = None\<rparr>"
proof -
  have h1: "''abc'' \<noteq> []" by simp
  have h2: "undecodable refreshed_env ''abc''" by code_simp
  have p: "str_truthy (accessKey unparsed_token) \<and> read_attr (tokenKey unparsed_token) = JStr ''abc''
          \<and> read_attr (tokenKeyExpires unparsed_token) = JNull
          \<and> read_attr (tokenKeyNextRefresh unparsed_token) = JNull"
    by (simp add: unparsed_token_def init_client_def str_truthy_def read_attr_def)
  from undecodable_token[OF h1 h2, of "init_client (Some ''app'') (Some ''secret'')"
      unparsed_token 60 "''GET''" "''https://paraio.com''" "''/v1/users''" Map.empty "[]" None]
    p h1 h2
  show ?thesis by blast
qed

text \<open>
  The claim as stated fails at the token \<open>abc\<close> on a new client (IndexError
  at \<open>parts[1]\<close>, nothing stored) and at \<open>a.b.c\<close> with a payload that does not
  decode (the decoder's error; the token held before stays).
\<close>

theorem undecodable_token_counterexample:
  "fst (setAccessToken refreshed_env (Some ''abc'') (init_client (Some ''app'') (Some ''secret'')))
     = Inl IndexError
   \<and> tokenKey (snd (setAccessToken refreshed_env (Some ''abc'')
                      (init_client (Some ''app'') (Some ''secret'')))) = None
   \<and> fst (setAccessToken refreshed_env (Some ''a.b.c'') (signed_in ''t'' 100 50))
     = Inl DecodeError
   \<and> tokenKey (snd (setAccessToken refreshed_env (Some ''a.b.c'') (signed_in ''t'' 100 50)))
     = Some (JStr ''t'')"
  by code_simp

end
